theory Spec2Isabelle
  imports Complex_Main
begin

section \<open>Safe-route computation (routing.js)\<close>

text \<open>
  A shallow embedding of \<^verbatim>\<open>routing.js\<close>: the haversine distance, the ray-casting
  polygon test and \<^verbatim>\<open>computeSafeRoute\<close> with its inner functions
  \<^verbatim>\<open>closestNode\<close>, \<^verbatim>\<open>edgeCost\<close> and \<^verbatim>\<open>extractMin\<close>.

  Conventions of the embedding.
  \<^item> A JavaScript number is a real number or \<^verbatim>\<open>Infinity\<close>; rounding of IEEE doubles is
    not modelled. On such numbers no operation of the program produces \<^verbatim>\<open>-Infinity\<close> or
    \<^verbatim>\<open>NaN\<close>, except the sum \<^verbatim>\<open>undefined + x\<close>, whose only use is a comparison that
    is then false. In doubles the argument of the square roots of \<^verbatim>\<open>haversine\<close> can
    round above 1 for antipodal points, and the distance is then \<^verbatim>\<open>NaN\<close>; over the real
    numbers that argument lies between 0 and 1 (\<open>hav_arg_range\<close> below), and the
    embedding does not express the rounding.
  \<^item> A JavaScript object used as a dictionary is the finite map of its own properties; a
    missing key, \<^verbatim>\<open>undefined\<close> and \<^verbatim>\<open>null\<close> are all \<open>None\<close>. Reading a key that is not
    an own property but names a property inherited from \<^verbatim>\<open>Object.prototype\<close>
    (\<^verbatim>\<open>constructor\<close>, \<^verbatim>\<open>toString\<close>, \<^verbatim>\<open>__proto__\<close>, ...) gives that property in the
    program and \<open>None\<close> here: such reads are outside the embedding. Assigning a number
    to the key \<^verbatim>\<open>__proto__\<close> stores nothing; the traffic map, whose keys come from the
    input records, is built accordingly.
  \<^item> The argument \<^verbatim>\<open>nodes\<close> is the list \<^verbatim>\<open>Object.values(nodes)\<close> of an object that
    stores every node under its own id, as the caller builds it
    (\<^verbatim>\<open>nodes[doc.id] = { id: doc.id, ... }\<close>). The keys of \<^verbatim>\<open>dist\<close> are then enumerated
    by \<^verbatim>\<open>for (const id in dist)\<close> in the order of that list.
  \<^item> An absent list (\<^verbatim>\<open>trafficList || []\<close>, \<^verbatim>\<open>floodsList || []\<close>,
    \<^verbatim>\<open>n.neighbors || []\<close>, a polygon that is not an array) is the empty list; a
    \<^verbatim>\<open>null\<close> traffic record is a record without \<^verbatim>\<open>edgeId\<close>.
\<close>

subsection \<open>Numbers\<close>

datatype num = Fin real | Infinity

fun num_add :: "num \<Rightarrow> num \<Rightarrow> num" where
  "num_add (Fin x) (Fin y) = Fin (x + y)"
| "num_add _ _ = Infinity"

fun num_less :: "num \<Rightarrow> num \<Rightarrow> bool" where
  "num_less (Fin x) (Fin y) = (x < y)"
| "num_less (Fin x) Infinity = True"
| "num_less Infinity _ = False"

fun num_le :: "num \<Rightarrow> num \<Rightarrow> bool" where
  "num_le (Fin x) (Fin y) = (x \<le> y)"
| "num_le _ Infinity = True"
| "num_le Infinity (Fin y) = False"

text \<open>\<^verbatim>\<open>a < b\<close> where either side may be \<^verbatim>\<open>undefined\<close> (that is \<^verbatim>\<open>NaN\<close> as a number).\<close>

fun js_less :: "num option \<Rightarrow> num option \<Rightarrow> bool" where
  "js_less (Some a) (Some b) = num_less a b"
| "js_less _ _ = False"

subsection \<open>Data\<close>

record point =
  lat :: real
  lng :: real

record waypoint = point +
  node_id :: string

text \<open>A neighbour reference is a plain id or an object exposing an \<^verbatim>\<open>id\<close> field.\<close>

datatype nref = Plain string | Obj string

record node = waypoint +
  neighbors :: "nref list"

record traffic =
  edgeId :: "string option"
  congestionScore :: "real option"
  score :: "real option"

record flood =
  polygon :: "point list"
  severity :: "real option"

datatype error = TypeError

record route =
  path :: "waypoint list"
  start :: "string option"
  end' :: "string option"
  distance_m :: "real option"

record search =
  dist :: "string \<rightharpoonup> num"
  prev :: "string \<rightharpoonup> string"
  visited :: "string list"

subsection \<open>Geo-metrics\<close>

definition toRad :: "real \<Rightarrow> real" where
  "toRad x = (x * pi) / 180"

text \<open>\<^verbatim>\<open>Math.atan2(y, x)\<close> on real arguments.\<close>

definition atan2 :: "real \<Rightarrow> real \<Rightarrow> real" where
  "atan2 y x =
     (if 0 < x then arctan (y / x)
      else if x < 0 then (if 0 \<le> y then arctan (y / x) + pi else arctan (y / x) - pi)
      else if 0 < y then pi / 2
      else if y < 0 then - (pi / 2)
      else 0)"

definition hav_arg :: "'a point_scheme \<Rightarrow> 'b point_scheme \<Rightarrow> real" where
  "hav_arg a b =
     (let dLat = toRad (lat b - lat a);
          dLon = toRad (lng b - lng a);
          lat1 = toRad (lat a);
          lat2 = toRad (lat b)
      in (sin (dLat / 2))\<^sup>2 + cos lat1 * cos lat2 * (sin (dLon / 2))\<^sup>2)"

definition haversine :: "'a point_scheme \<Rightarrow> 'b point_scheme \<Rightarrow> real" where
  "haversine a b =
     (let R = 6371000; A = hav_arg a b
      in R * 2 * atan2 (sqrt A) (sqrt (1 - A)))"

text \<open>
  The loop of \<^verbatim>\<open>pointInPolygon\<close> visits the pairs \<open>(polygon[i], polygon[j])\<close> where
  \<open>j\<close> is the index before \<open>i\<close>, cyclically: the last vertex for \<open>i = 0\<close>.
\<close>

definition intersect :: "point \<Rightarrow> point \<Rightarrow> point \<Rightarrow> bool" where
  "intersect p vi vj =
     (let x = lng p; y = lat p;
          xi = lng vi; yi = lat vi;
          xj = lng vj; yj = lat vj
      in ((yi > y) \<noteq> (yj > y)) \<and> x < ((xj - xi) * (y - yi)) / (yj - yi) + xi)"

definition pointInPolygon :: "point \<Rightarrow> point list \<Rightarrow> bool" where
  "pointInPolygon p poly =
     (if length poly < 3 then False
      else foldl (\<lambda>inside (vi, vj). if intersect p vi vj then \<not> inside else inside)
             False (zip poly (last poly # butlast poly)))"

subsection \<open>Lookup structures\<close>

text \<open>
  The traffic map: a record without a truthy \<^verbatim>\<open>edgeId\<close> is skipped; the stored value is
  \<^verbatim>\<open>t.congestionScore ?? t.score ?? 0\<close>. The assignment
  \<^verbatim>\<open>trafficMap[t.edgeId] = ...\<close> on the plain object \<^verbatim>\<open>{}\<close> stores nothing when the key
  is \<^verbatim>\<open>__proto__\<close>: it reaches the inherited setter, which ignores a number.
\<close>

definition traffic_value :: "traffic \<Rightarrow> real" where
  "traffic_value t =
     (case congestionScore t of
        Some c \<Rightarrow> c
      | None \<Rightarrow> (case score t of Some c \<Rightarrow> c | None \<Rightarrow> 0))"

fun trafficMap_of :: "traffic list \<Rightarrow> (string \<rightharpoonup> real) \<Rightarrow> (string \<rightharpoonup> real)" where
  "trafficMap_of [] m = m"
| "trafficMap_of (t # ts) m =
     (case edgeId t of
        None \<Rightarrow> trafficMap_of ts m
      | Some k \<Rightarrow>
          if k = [] \<or> k = ''__proto__'' then trafficMap_of ts m
          else trafficMap_of ts (m(k \<mapsto> traffic_value t)))"

text \<open>\<^verbatim>\<open>nodes[k]\<close>: the node stored under the key \<open>k\<close>.\<close>

definition lookup :: "node list \<Rightarrow> string \<Rightarrow> node option" where
  "lookup nodes k = find (\<lambda>n. node_id n = k) nodes"

fun ref_id :: "nref \<Rightarrow> string" where
  "ref_id (Plain s) = s"
| "ref_id (Obj s) = s"

text \<open>The adjacency map, \<^verbatim>\<open>adj[n.id] = ...\<close> for each node in turn.\<close>

definition adj :: "node list \<Rightarrow> (string \<rightharpoonup> string list)" where
  "adj nodes = foldl (\<lambda>m n. m(node_id n \<mapsto> map ref_id (neighbors n))) Map.empty nodes"

definition closestNode :: "node list \<Rightarrow> point \<Rightarrow> node option" where
  "closestNode nodeArray p =
     fst (foldl (\<lambda>(best, bestDist) n.
                   let d = Fin (haversine p \<lparr>lat = lat n, lng = lng n\<rparr>)
                   in if num_less d bestDist then (Some n, d) else (best, bestDist))
            (None, Infinity) nodeArray)"

subsection \<open>Cost model\<close>

definition congestion :: "(string \<rightharpoonup> real) \<Rightarrow> string \<Rightarrow> string \<Rightarrow> real" where
  "congestion trafficMap aId bId =
     (case trafficMap (aId @ ''_'' @ bId) of
        Some c \<Rightarrow> c
      | None \<Rightarrow> (case trafficMap (bId @ ''_'' @ aId) of Some c \<Rightarrow> c | None \<Rightarrow> 0))"

text \<open>\<^verbatim>\<open>f.severity || 1\<close>: an absent or zero severity is falsy.\<close>

definition effective_severity :: "flood \<Rightarrow> real" where
  "effective_severity f =
     (case severity f of None \<Rightarrow> 1 | Some s \<Rightarrow> if s = 0 then 1 else s)"

definition midpoint :: "node \<Rightarrow> node \<Rightarrow> point" where
  "midpoint a b = \<lparr>lat = (lat a + lat b) / 2, lng = (lng a + lng b) / 2\<rparr>"

definition flood_penalty :: "point \<Rightarrow> flood list \<Rightarrow> real \<Rightarrow> real" where
  "flood_penalty mid floodsList base =
     foldl (\<lambda>b f. if pointInPolygon mid (polygon f)
                   then b * (1 + 5 * effective_severity f) else b)
       base floodsList"

definition edgeCost ::
  "node list \<Rightarrow> (string \<rightharpoonup> real) \<Rightarrow> flood list \<Rightarrow> string \<Rightarrow> string \<Rightarrow> num" where
  "edgeCost nodes trafficMap floodsList aId bId =
     (case lookup nodes aId of
        None \<Rightarrow> Infinity
      | Some a \<Rightarrow>
          (case lookup nodes bId of
             None \<Rightarrow> Infinity
           | Some b \<Rightarrow>
               Fin (flood_penalty (midpoint a b) floodsList
                      (haversine a b * (1 + 2 * congestion trafficMap aId bId)))))"

subsection \<open>Shortest-path search\<close>

definition init_search :: "node list \<Rightarrow> string \<Rightarrow> search" where
  "init_search nodeArray startId =
     \<lparr>dist = (foldl (\<lambda>m n. m(node_id n \<mapsto> Infinity)) Map.empty nodeArray)
                (startId \<mapsto> Fin 0),
      prev = Map.empty,
      visited = []\<rparr>"

definition extractMin :: "string list \<Rightarrow> search \<Rightarrow> string option" where
  "extractMin keys s =
     foldl (\<lambda>best k.
              if k \<notin> set (visited s)
              then (case best of
                      None \<Rightarrow> Some k
                    | Some b \<Rightarrow> if js_less (dist s k) (dist s b) then Some k else best)
              else best)
       None keys"

text \<open>The relaxation loop \<^verbatim>\<open>for (const v of adj[u] || [])\<close>.\<close>

fun relax ::
  "node list \<Rightarrow> (string \<rightharpoonup> real) \<Rightarrow> flood list \<Rightarrow> string \<Rightarrow> string list \<Rightarrow> search \<Rightarrow> search"
where
  "relax nodes tm fl u [] s = s"
| "relax nodes tm fl u (v # vs) s =
     (if v \<in> set (visited s) then relax nodes tm fl u vs s
      else
        (case dist s u of
           None \<Rightarrow> relax nodes tm fl u vs s
         | Some du \<Rightarrow>
             let alt = num_add du (edgeCost nodes tm fl u v)
             in if js_less (Some alt) (dist s v)
                then relax nodes tm fl u vs
                       (s\<lparr>dist := (dist s)(v \<mapsto> alt), prev := (prev s)(v \<mapsto> u)\<rparr>)
                else relax nodes tm fl u vs s))"

definition neighbours_of :: "node list \<Rightarrow> string \<Rightarrow> string list" where
  "neighbours_of nodes u = (case adj nodes u of None \<Rightarrow> [] | Some vs \<Rightarrow> vs)"

definition visit ::
  "node list \<Rightarrow> (string \<rightharpoonup> real) \<Rightarrow> flood list \<Rightarrow> string \<Rightarrow> search \<Rightarrow> search" where
  "visit nodes tm fl u s =
     relax nodes tm fl u (neighbours_of nodes u) (s\<lparr>visited := visited s @ [u]\<rparr>)"

lemma foldl_extractMin_step:
  "foldl (\<lambda>best k.
            if k \<notin> set (visited s)
            then (case best of
                    None \<Rightarrow> Some k
                  | Some b \<Rightarrow> if js_less (dist s k) (dist s b) then Some k else best)
            else best) acc keys = Some u
   \<Longrightarrow> (u \<in> set keys \<and> u \<notin> set (visited s)) \<or> acc = Some u"
  by (induction keys arbitrary: acc) (auto split: if_splits option.splits)

lemma extractMin_Some: "extractMin keys s = Some u \<Longrightarrow> u \<in> set keys \<and> u \<notin> set (visited s)"
  unfolding extractMin_def by (drule foldl_extractMin_step) simp

lemma visited_relax [simp]: "visited (relax nodes tm fl u vs s) = visited s"
  by (induction vs arbitrary: s) (auto split: option.splits simp: Let_def)

lemma visited_visit [simp]: "visited (visit nodes tm fl u s) = visited s @ [u]"
  by (simp add: visit_def)

lemma unvisited_decreases:
  assumes "extractMin keys s = Some u"
  shows "card (set keys - set (visited (visit nodes tm fl u s))) < card (set keys - set (visited s))"
proof -
  have u: "u \<in> set keys" "u \<notin> set (visited s)"
    using assms extractMin_Some by blast+
  have "set keys - set (visited s @ [u]) \<subset> set keys - set (visited s)"
    using u by auto
  then have "card (set keys - set (visited s @ [u])) < card (set keys - set (visited s))"
    by (intro psubset_card_mono) auto
  then show ?thesis by simp
qed

text \<open>
  The main loop \<^verbatim>\<open>while (true)\<close>: it stops when \<^verbatim>\<open>extractMin\<close> finds no unvisited key
  or selects the destination; otherwise the selected key is visited.
\<close>

function dijkstra ::
  "node list \<Rightarrow> (string \<rightharpoonup> real) \<Rightarrow> flood list \<Rightarrow> string \<Rightarrow> search \<Rightarrow> search" where
  "dijkstra nodes tm fl endId s =
     (case extractMin (map node_id nodes) s of
        None \<Rightarrow> s
      | Some u \<Rightarrow>
          if u = endId then s
          else dijkstra nodes tm fl endId (visit nodes tm fl u s))"
  by pat_completeness auto
termination
proof (relation "measure (\<lambda>(nodes, tm, fl, endId, s).
                   card (set (map node_id nodes) - set (visited s)))", goal_cases)
  case 1
  show ?case by simp
next
  case (2 nodes tm fl endId s u)
  then show ?case
    by (simp only: in_measure prod.case unvisited_decreases)
qed

text \<open>
  The same loop, recording the state at the start of every iteration: the states in
  which \<^verbatim>\<open>extractMin\<close> is called. The last of them is the state the loop exits with.
\<close>

function search_trace ::
  "node list \<Rightarrow> (string \<rightharpoonup> real) \<Rightarrow> flood list \<Rightarrow> string \<Rightarrow> search \<Rightarrow> search list" where
  "search_trace nodes tm fl endId s =
     s # (case extractMin (map node_id nodes) s of
            None \<Rightarrow> []
          | Some u \<Rightarrow>
              if u = endId then []
              else search_trace nodes tm fl endId (visit nodes tm fl u s))"
  by pat_completeness auto
termination
proof (relation "measure (\<lambda>(nodes, tm, fl, endId, s).
                   card (set (map node_id nodes) - set (visited s)))", goal_cases)
  case 1
  show ?case by simp
next
  case (2 nodes tm fl endId s u)
  then show ?case
    by (simp only: in_measure prod.case unvisited_decreases)
qed

declare dijkstra.simps [simp del] search_trace.simps [simp del]

subsection \<open>Reconstruction and the result\<close>

text \<open>
  \<^verbatim>\<open>while (cur) { path.unshift(nodes[cur]); cur = prev[cur]; }\<close>. The loop stops at a
  falsy \<^verbatim>\<open>cur\<close>: \<^verbatim>\<open>null\<close>, \<^verbatim>\<open>undefined\<close> or the empty string. The result \<open>None\<close>
  stands for a loop that does not end.
\<close>

partial_function (option) walk ::
  "node list \<Rightarrow> (string \<rightharpoonup> string) \<Rightarrow> string option \<Rightarrow> node option list
     \<Rightarrow> node option list option" where
  "walk nodes prv cur pth =
     (case cur of
        None \<Rightarrow> Some pth
      | Some c \<Rightarrow>
          if c = [] then Some pth
          else walk nodes prv (prv c) (lookup nodes c # pth))"

text \<open>
  \<^verbatim>\<open>path.map((n) => ({ lat: n.lat, lng: n.lng, id: n.id }))\<close> throws a TypeError at an
  \<^verbatim>\<open>undefined\<close> entry.
\<close>

fun to_waypoints :: "node option list \<Rightarrow> error + waypoint list" where
  "to_waypoints [] = Inr []"
| "to_waypoints (None # ns) = Inl TypeError"
| "to_waypoints (Some n # ns) =
     (case to_waypoints ns of
        Inl e \<Rightarrow> Inl e
      | Inr ws \<Rightarrow> Inr (\<lparr>lat = lat n, lng = lng n, node_id = node_id n\<rparr> # ws))"

text \<open>
  The result is \<open>None\<close> when the call does not return, \<open>Some (Inl e)\<close> when it throws
  and \<open>Some (Inr r)\<close> when it returns the object \<open>r\<close>; a field the returned object does
  not have, or has as \<^verbatim>\<open>undefined\<close>, is \<open>None\<close> in \<open>r\<close>.
\<close>

definition search_result ::
  "node list \<Rightarrow> traffic list \<Rightarrow> flood list \<Rightarrow> string \<Rightarrow> string \<Rightarrow> search" where
  "search_result nodes trafficList floodsList startId endId =
     dijkstra nodes (trafficMap_of trafficList Map.empty) floodsList endId
       (init_search nodes startId)"

definition computeSafeRoute ::
  "node list \<Rightarrow> traffic list \<Rightarrow> flood list \<Rightarrow> point \<Rightarrow> point \<Rightarrow> (error + route) option" where
  "computeSafeRoute nodes trafficList floodsList srcPoint dstPoint =
     (case (closestNode nodes srcPoint, closestNode nodes dstPoint) of
        (Some startN, Some endN) \<Rightarrow>
          let s = search_result nodes trafficList floodsList (node_id startN) (node_id endN)
          in if dist s (node_id endN) = Some Infinity
             then Some (Inr \<lparr>path = [], start = Some (node_id startN),
                             end' = Some (node_id endN), distance_m = None\<rparr>)
             else
               (case walk nodes (prev s) (Some (node_id endN)) [] of
                  None \<Rightarrow> None
                | Some pth \<Rightarrow>
                    (case to_waypoints pth of
                       Inl e \<Rightarrow> Some (Inl e)
                     | Inr ws \<Rightarrow>
                         Some (Inr \<lparr>path = ws, start = Some (node_id startN),
                                    end' = Some (node_id endN),
                                    distance_m =
                                      (case dist s (node_id endN) of
                                         Some (Fin d) \<Rightarrow> Some d
                                       | _ \<Rightarrow> None)\<rparr>)))
      | _ \<Rightarrow> Some (Inr \<lparr>path = [], start = None, end' = None, distance_m = None\<rparr>))"

subsection \<open>Notions used in the proofs\<close>

text \<open>The flood penalty multiplies the base cost by one factor for each containing zone.\<close>

definition zone_factor :: "point \<Rightarrow> flood \<Rightarrow> real" where
  "zone_factor mid f =
     (if pointInPolygon mid (polygon f) then 1 + 5 * effective_severity f else 1)"

text \<open>No distance held by the state is negative.\<close>

definition dist_nonneg :: "search \<Rightarrow> bool" where
  "dist_nonneg s \<longleftrightarrow> (\<forall>k d. dist s k = Some d \<longrightarrow> num_le (Fin 0) d)"

text \<open>The position of a key in the visited list, or the length of the list if it is not there.\<close>

fun pos :: "string list \<Rightarrow> string \<Rightarrow> nat" where
  "pos [] x = 0"
| "pos (y # ys) x = (if x = y then 0 else Suc (pos ys x))"

definition prev_ok :: "node list \<Rightarrow> search \<Rightarrow> bool" where
  "prev_ok nodes s \<longleftrightarrow>
     set (visited s) \<subseteq> set (map node_id nodes)
     \<and> (\<forall>v u. prev s v = Some u \<longrightarrow> pos (visited s) u < pos (visited s) v)"

text \<open>The graph with every reference to a missing node deleted.\<close>

definition drop_dead :: "string set \<Rightarrow> node \<Rightarrow> node" where
  "drop_dead ids n = n\<lparr>neighbors := filter (\<lambda>r. ref_id r \<in> ids) (neighbors n)\<rparr>"

definition prune :: "node list \<Rightarrow> node list" where
  "prune nodes = map (drop_dead (set (map node_id nodes))) nodes"

section \<open>Properties of the parts\<close>

subsection \<open>The haversine distance is non-negative\<close>

lemma hav_arg_alt:
  "hav_arg a b =
     (1 - (sin (toRad (lng b - lng a) / 2))\<^sup>2) * (sin (toRad (lat b - lat a) / 2))\<^sup>2
     + (sin (toRad (lng b - lng a) / 2))\<^sup>2 * (cos ((toRad (lat a) + toRad (lat b)) / 2))\<^sup>2"
proof -
  define x where "x = toRad (lat b - lat a) / 2"
  define y where "y = (toRad (lat a) + toRad (lat b)) / 2"
  have a: "toRad (lat a) = y - x" and b: "toRad (lat b) = y + x"
    by (simp_all add: x_def y_def toRad_def field_simps)
  have "cos (y - x) * cos (y + x) = (cos y)\<^sup>2 * (cos x)\<^sup>2 - (sin y)\<^sup>2 * (sin x)\<^sup>2"
    by (simp add: cos_add cos_diff power2_eq_square algebra_simps)
  also have "\<dots> = (cos y)\<^sup>2 - (sin x)\<^sup>2"
    by (simp add: cos_squared_eq algebra_simps)
  finally have prod: "cos (toRad (lat a)) * cos (toRad (lat b)) = (cos y)\<^sup>2 - (sin x)\<^sup>2"
    by (simp add: a b)
  show ?thesis
    unfolding hav_arg_def Let_def prod
    by (simp add: x_def y_def algebra_simps)
qed

lemma hav_arg_range: "0 \<le> hav_arg a b \<and> hav_arg a b \<le> 1"
proof -
  define h where "h = (sin (toRad (lng b - lng a) / 2))\<^sup>2"
  define p where "p = (sin (toRad (lat b - lat a) / 2))\<^sup>2"
  define q where "q = (cos ((toRad (lat a) + toRad (lat b)) / 2))\<^sup>2"
  have h: "0 \<le> h" "h \<le> 1" and p: "0 \<le> p" "p \<le> 1" and q: "0 \<le> q" "q \<le> 1"
    by (simp_all add: h_def p_def q_def abs_square_le_1)
  have eq: "hav_arg a b = (1 - h) * p + h * q"
    by (simp add: hav_arg_alt h_def p_def q_def)
  have "0 \<le> (1 - h) * p" "0 \<le> h * q" using h p q by simp_all
  moreover have "(1 - h) * p \<le> (1 - h) * 1" "h * q \<le> h * 1"
    using h p q by (intro mult_left_mono; simp)+
  ultimately show ?thesis unfolding eq by (auto simp: algebra_simps)
qed

lemma atan2_nonneg: "0 \<le> y \<Longrightarrow> 0 \<le> x \<Longrightarrow> 0 \<le> atan2 y x"
  by (auto simp: atan2_def)

lemma haversine_nonneg: "0 \<le> haversine a b"
proof -
  have "0 \<le> atan2 (sqrt (hav_arg a b)) (sqrt (1 - hav_arg a b))"
    using hav_arg_range [of a b] by (intro atan2_nonneg) simp_all
  then show ?thesis by (simp add: haversine_def Let_def)
qed

subsection \<open>The traffic map\<close>

lemma trafficMap_of_append:
  "trafficMap_of (ts @ ts') m = trafficMap_of ts' (trafficMap_of ts m)"
  by (induction ts arbitrary: m) (auto split: option.splits)

lemma trafficMap_of_other:
  "\<forall>t \<in> set ts. edgeId t \<noteq> Some k \<Longrightarrow> trafficMap_of ts m k = m k"
  by (induction ts arbitrary: m) (auto split: option.splits)

lemma trafficMap_of_range:
  "\<forall>t \<in> set ts. P (traffic_value t) \<Longrightarrow> \<forall>k v. m k = Some v \<longrightarrow> P v
   \<Longrightarrow> trafficMap_of ts m k = Some v \<Longrightarrow> P v"
proof (induction ts arbitrary: m)
  case Nil
  then show ?case by simp
next
  case (Cons t ts)
  show ?case
  proof (cases "edgeId t")
    case None
    with Cons show ?thesis by simp
  next
    case (Some e)
    show ?thesis
    proof (cases "e = [] \<or> e = ''__proto__''")
      case True
      with Some Cons show ?thesis by auto
    next
      case False
      have 1: "\<forall>t \<in> set ts. P (traffic_value t)"
        using Cons.prems by simp
      have 2: "\<forall>k v. (m(e \<mapsto> traffic_value t)) k = Some v \<longrightarrow> P v"
        using Cons.prems by auto
      have 3: "trafficMap_of ts (m(e \<mapsto> traffic_value t)) k = Some v"
        using Cons.prems Some False by simp
      show ?thesis
        by (rule Cons.IH [OF 1 2 3])
    qed
  qed
qed

subsection \<open>The cost model\<close>

lemma flood_penalty_Nil [simp]: "flood_penalty mid [] base = base"
  by (simp add: flood_penalty_def)

lemma flood_penalty_Cons:
  "flood_penalty mid (f # fs) base = flood_penalty mid fs (base * zone_factor mid f)"
  by (simp add: flood_penalty_def zone_factor_def)

lemma flood_penalty_prod:
  "flood_penalty mid fs base = base * (\<Prod>f\<leftarrow>fs. zone_factor mid f)"
  by (induction fs arbitrary: base) (simp_all add: flood_penalty_Cons mult.assoc)

lemma prod_list_nonneg_real:
  "\<forall>x \<in> set xs. (0::real) \<le> g x \<Longrightarrow> 0 \<le> (\<Prod>x\<leftarrow>xs. g x)"
  by (induction xs) simp_all

lemma edgeCost_dead: "lookup nodes aId = None \<or> lookup nodes bId = None
    \<Longrightarrow> edgeCost nodes tm fl aId bId = Infinity"
  by (auto simp: edgeCost_def split: option.splits)

lemma edgeCost_live:
  "lookup nodes aId = Some a \<Longrightarrow> lookup nodes bId = Some b
   \<Longrightarrow> edgeCost nodes tm fl aId bId
       = Fin (haversine a b * (1 + 2 * congestion tm aId bId)
              * (\<Prod>f\<leftarrow>fl. zone_factor (midpoint a b) f))"
  by (simp add: edgeCost_def flood_penalty_prod)

lemma zone_factor_nonneg:
  "- (1/5) \<le> effective_severity f \<Longrightarrow> 0 \<le> zone_factor mid f"
  by (simp add: zone_factor_def)

lemma num_le_Fin_mult_right:
  "x \<le> y \<Longrightarrow> 0 \<le> c \<Longrightarrow> num_le (Fin (x * c)) (Fin (y * c))"
  by (simp add: mult_right_mono)

subsection \<open>The search loop: unfolding, invariants, exit\<close>

lemma extractMin_foldl_None:
  "foldl (\<lambda>best k.
            if k \<notin> set (visited s)
            then (case best of
                    None \<Rightarrow> Some k
                  | Some b \<Rightarrow> if js_less (dist s k) (dist s b) then Some k else best)
            else best) acc keys = None
   \<longleftrightarrow> acc = None \<and> set keys \<subseteq> set (visited s)"
  by (induction keys arbitrary: acc) (auto split: option.splits)

lemma extractMin_None_iff: "extractMin keys s = None \<longleftrightarrow> set keys \<subseteq> set (visited s)"
  by (simp add: extractMin_def extractMin_foldl_None)

lemma dijkstra_stop:
  "extractMin (map node_id nodes) s = None \<or> extractMin (map node_id nodes) s = Some endId
   \<Longrightarrow> dijkstra nodes tm fl endId s = s"
  by (subst dijkstra.simps) auto

lemma dijkstra_step:
  "extractMin (map node_id nodes) s = Some u \<Longrightarrow> u \<noteq> endId
   \<Longrightarrow> dijkstra nodes tm fl endId s = dijkstra nodes tm fl endId (visit nodes tm fl u s)"
  by (subst dijkstra.simps) simp

lemma search_trace_stop:
  "extractMin (map node_id nodes) s = None \<or> extractMin (map node_id nodes) s = Some endId
   \<Longrightarrow> search_trace nodes tm fl endId s = [s]"
  by (subst search_trace.simps) auto

lemma search_trace_step_eq:
  "extractMin (map node_id nodes) s = Some u \<Longrightarrow> u \<noteq> endId
   \<Longrightarrow> search_trace nodes tm fl endId s = s # search_trace nodes tm fl endId (visit nodes tm fl u s)"
  by (subst search_trace.simps) simp

lemma search_trace_nonempty [simp]: "search_trace nodes tm fl endId s \<noteq> []"
  by (subst search_trace.simps) simp

lemma hd_search_trace [simp]: "hd (search_trace nodes tm fl endId s) = s"
  by (subst search_trace.simps) simp

lemma dijkstra_last_trace:
  "dijkstra nodes tm fl endId s = last (search_trace nodes tm fl endId s)"
proof (induction nodes tm fl endId s rule: dijkstra.induct)
  case (1 nodes tm fl endId s)
  show ?case
  proof (cases "extractMin (map node_id nodes) s")
    case None
    then show ?thesis
      by (subst dijkstra.simps, subst search_trace.simps) simp
  next
    case (Some u)
    show ?thesis
    proof (cases "u = endId")
      case True
      with Some show ?thesis
        by (subst dijkstra.simps, subst search_trace.simps) simp
    next
      case False
      with Some "1.IH" [OF Some False] show ?thesis
        by (subst dijkstra.simps, subst search_trace.simps) simp
    qed
  qed
qed

text \<open>A property that holds at the start and is kept by every visit holds throughout.\<close>

lemma search_trace_invariant:
  assumes "P s"
    and "\<And>s u. P s \<Longrightarrow> extractMin (map node_id nodes) s = Some u \<Longrightarrow> u \<noteq> endId
           \<Longrightarrow> P (visit nodes tm fl u s)"
  shows "\<forall>s' \<in> set (search_trace nodes tm fl endId s). P s'"
  using assms
proof (induction nodes tm fl endId s rule: search_trace.induct)
  case (1 nodes tm fl endId s)
  note step = "1.prems"(2)
  show ?case
  proof (cases "extractMin (map node_id nodes) s")
    case None
    with "1.prems"(1) show ?thesis
      by (subst search_trace.simps) simp
  next
    case (Some u)
    show ?thesis
    proof (cases "u = endId")
      case True
      with Some "1.prems"(1) show ?thesis
        by (subst search_trace.simps) simp
    next
      case False
      have "P (visit nodes tm fl u s)"
        using "1.prems"(1) Some False by (rule step)
      then have "\<forall>s' \<in> set (search_trace nodes tm fl endId (visit nodes tm fl u s)). P s'"
        using step by (rule "1.IH" [OF Some False])
      with Some False "1.prems"(1) show ?thesis
        by (subst search_trace.simps) simp
    qed
  qed
qed

lemma dijkstra_invariant:
  assumes "P s"
    and "\<And>s u. P s \<Longrightarrow> extractMin (map node_id nodes) s = Some u \<Longrightarrow> u \<noteq> endId
           \<Longrightarrow> P (visit nodes tm fl u s)"
  shows "P (dijkstra nodes tm fl endId s)"
proof -
  have "last (search_trace nodes tm fl endId s) \<in> set (search_trace nodes tm fl endId s)"
    by simp
  moreover have "\<forall>s' \<in> set (search_trace nodes tm fl endId s). P s'"
    using assms by (rule search_trace_invariant)
  ultimately have "P (last (search_trace nodes tm fl endId s))"
    by blast
  then show ?thesis
    by (simp only: dijkstra_last_trace)
qed

text \<open>The loop exits when no key is unvisited or the destination is selected.\<close>

lemma dijkstra_exit:
  "extractMin (map node_id nodes) (dijkstra nodes tm fl endId s) = None
   \<or> extractMin (map node_id nodes) (dijkstra nodes tm fl endId s) = Some endId"
proof (induction nodes tm fl endId s rule: dijkstra.induct)
  case (1 nodes tm fl endId s)
  show ?case
  proof (cases "extractMin (map node_id nodes) s")
    case None
    then show ?thesis by (simp add: dijkstra_stop)
  next
    case (Some u)
    show ?thesis
    proof (cases "u = endId")
      case True
      with Some show ?thesis by (simp add: dijkstra_stop)
    next
      case False
      with Some "1.IH" [OF Some False] show ?thesis
        by (simp add: dijkstra_step)
    qed
  qed
qed

text \<open>The destination is never visited, so the loop exits by selecting it.\<close>

lemma dijkstra_end_unvisited:
  "endId \<notin> set (visited s) \<Longrightarrow> endId \<notin> set (visited (dijkstra nodes tm fl endId s))"
  by (rule dijkstra_invariant [where P = "\<lambda>s. endId \<notin> set (visited s)"]) simp_all

lemma dijkstra_selects_end:
  assumes "endId \<in> set (map node_id nodes)" and "endId \<notin> set (visited s)"
  shows "extractMin (map node_id nodes) (dijkstra nodes tm fl endId s) = Some endId"
proof -
  have "\<not> set (map node_id nodes) \<subseteq> set (visited (dijkstra nodes tm fl endId s))"
    using assms dijkstra_end_unvisited [of endId s nodes tm fl] by blast
  then show ?thesis
    using dijkstra_exit [of nodes tm fl endId s] by (simp add: extractMin_None_iff)
qed

lemma search_trace_length:
  "length (search_trace nodes tm fl endId s)
     \<le> card (set (map node_id nodes) - set (visited s)) + 1"
proof (induction nodes tm fl endId s rule: search_trace.induct)
  case (1 nodes tm fl endId s)
  show ?case
  proof (cases "extractMin (map node_id nodes) s")
    case None
    then show ?thesis by (subst search_trace.simps) simp
  next
    case (Some u)
    show ?thesis
    proof (cases "u = endId")
      case True
      with Some show ?thesis by (subst search_trace.simps) simp
    next
      case False
      have "length (search_trace nodes tm fl endId (visit nodes tm fl u s))
              \<le> card (set (map node_id nodes) - set (visited (visit nodes tm fl u s))) + 1"
        by (rule "1.IH" [OF Some False])
      also have "\<dots> \<le> card (set (map node_id nodes) - set (visited s))"
        using unvisited_decreases [OF Some, of nodes tm fl] by simp
      finally show ?thesis
        using Some False by (subst search_trace.simps) simp
    qed
  qed
qed

lemma search_trace_step:
  "Suc i < length (search_trace nodes tm fl endId s)
   \<Longrightarrow> \<exists>u. extractMin (map node_id nodes) (search_trace nodes tm fl endId s ! i) = Some u
          \<and> u \<noteq> endId
          \<and> u \<in> set (map node_id nodes)
          \<and> u \<notin> set (visited (search_trace nodes tm fl endId s ! i))
          \<and> search_trace nodes tm fl endId s ! Suc i
              = visit nodes tm fl u (search_trace nodes tm fl endId s ! i)"
proof (induction nodes tm fl endId s arbitrary: i rule: search_trace.induct)
  case (1 nodes tm fl endId s)
  let ?tr = "search_trace nodes tm fl endId s"
  show ?case
  proof (cases "extractMin (map node_id nodes) s")
    case None
    then have "?tr = [s]" by (subst search_trace.simps) simp
    with "1.prems" show ?thesis by simp
  next
    case (Some u)
    show ?thesis
    proof (cases "u = endId")
      case True
      with Some have "?tr = [s]" by (subst search_trace.simps) simp
      with "1.prems" show ?thesis by simp
    next
      case False
      let ?tr' = "search_trace nodes tm fl endId (visit nodes tm fl u s)"
      have tr: "?tr = s # ?tr'"
        using Some False by (subst search_trace.simps) simp
      show ?thesis
      proof (cases i)
        case 0
        have "hd ?tr' = ?tr' ! 0"
          by (rule hd_conv_nth) simp
        then have "?tr' ! 0 = visit nodes tm fl u s"
          by simp
        with 0 Some False extractMin_Some [OF Some] show ?thesis
          by (simp add: tr)
      next
        case (Suc j)
        have "Suc j < length ?tr'"
          using "1.prems" Suc by (simp add: tr)
        from "1.IH" [OF Some False this] Suc show ?thesis
          by (simp add: tr)
      qed
    qed
  qed
qed

subsection \<open>Snapping, initial state, reconstruction\<close>

lemma closestNode_foldl_mem:
  "fst (foldl (\<lambda>(best, bestDist) n.
                 let d = Fin (haversine p \<lparr>lat = lat n, lng = lng n\<rparr>)
                 in if num_less d bestDist then (Some n, d) else (best, bestDist))
          (b0, d0) ns) = Some n
   \<Longrightarrow> n \<in> set ns \<or> b0 = Some n"
  by (induction ns arbitrary: b0 d0) (auto simp: Let_def split: if_splits)

lemma closestNode_mem: "closestNode nodes p = Some n \<Longrightarrow> n \<in> set nodes"
  unfolding closestNode_def by (drule closestNode_foldl_mem) simp

lemma foldl_dist_init:
  "foldl (\<lambda>m n. m(node_id n \<mapsto> Infinity)) m0 ns k
     = (if k \<in> set (map node_id ns) then Some Infinity else m0 k)"
  by (induction ns arbitrary: m0) auto

lemma dist_init_search:
  "dist (init_search nodes startId) k
     = (if k = startId then Some (Fin 0)
        else if k \<in> set (map node_id nodes) then Some Infinity else None)"
  by (simp add: init_search_def foldl_dist_init)

text \<open>A property kept by every single update of the relaxation is kept by the whole of it.\<close>

lemma relax_invariant:
  assumes "P s"
    and "\<And>(s::search) v du.
           P s \<Longrightarrow> v \<notin> set (visited s) \<Longrightarrow> dist s u = Some du
           \<Longrightarrow> js_less (Some (num_add du (edgeCost nodes tm fl u v))) (dist s v)
           \<Longrightarrow> P (s\<lparr>dist := (dist s)(v \<mapsto> num_add du (edgeCost nodes tm fl u v)),
                     prev := (prev s)(v \<mapsto> u)\<rparr>)"
  shows "P (relax nodes tm fl u vs s)"
  using assms(1)
proof (induction vs arbitrary: s)
  case Nil
  then show ?case by simp
next
  case (Cons v vs)
  show ?case
  proof (cases "v \<in> set (visited s)")
    case True
    with Cons show ?thesis by simp
  next
    case False
    show ?thesis
    proof (cases "dist s u")
      case None
      with False Cons show ?thesis by simp
    next
      case (Some du)
      show ?thesis
      proof (cases "js_less (Some (num_add du (edgeCost nodes tm fl u v))) (dist s v)")
        case True
        have "P (s\<lparr>dist := (dist s)(v \<mapsto> num_add du (edgeCost nodes tm fl u v)),
                  prev := (prev s)(v \<mapsto> u)\<rparr>)"
          using Cons.prems False Some True by (rule assms(2))
        then show ?thesis
          using False Some True by (simp add: Cons.IH)
      next
        case F: False
        with False Some Cons show ?thesis by simp
      qed
    qed
  qed
qed

lemma visit_invariant:
  assumes "P (s\<lparr>visited := visited s @ [u]\<rparr>)"
    and "\<And>(s::search) v du.
           P s \<Longrightarrow> v \<notin> set (visited s) \<Longrightarrow> dist s u = Some du
           \<Longrightarrow> js_less (Some (num_add du (edgeCost nodes tm fl u v))) (dist s v)
           \<Longrightarrow> P (s\<lparr>dist := (dist s)(v \<mapsto> num_add du (edgeCost nodes tm fl u v)),
                     prev := (prev s)(v \<mapsto> u)\<rparr>)"
  shows "P (visit nodes tm fl u s)"
  unfolding visit_def using assms by (rule relax_invariant)

lemma dom_dist_visit:
  fixes s :: search
  assumes "k \<in> dom (dist s)"
  shows "k \<in> dom (dist (visit nodes tm fl u s))"
  by (rule visit_invariant [where P = "\<lambda>s. k \<in> dom (dist s)"]) (use assms in auto)

lemma dist_search_defined:
  assumes "k \<in> set (map node_id nodes)"
  shows "dist (dijkstra nodes tm fl endId (init_search nodes startId)) k \<noteq> None"
proof -
  have "k \<in> dom (dist (dijkstra nodes tm fl endId (init_search nodes startId)))"
  proof (rule dijkstra_invariant [where P = "\<lambda>s. k \<in> dom (dist s)"])
    show "k \<in> dom (dist (init_search nodes startId))"
      using assms by (simp add: dom_def dist_init_search)
  next
    fix s :: search and u
    assume "k \<in> dom (dist s)"
    then show "k \<in> dom (dist (visit nodes tm fl u s))"
      by (rule dom_dist_visit)
  qed
  then show ?thesis by auto
qed

lemma walk_length:
  assumes "walk nodes prv cur pth = Some r"
  shows "length pth \<le> length r"
proof (rule walk.raw_induct [where P = "\<lambda>nodes prv cur pth r. length pth \<le> length r", OF _ assms])
  fix w :: "node list \<Rightarrow> (string \<rightharpoonup> string) \<Rightarrow> string option \<Rightarrow> node option list
              \<Rightarrow> node option list option"
    and nodes prv cur pth r
  assume IH: "\<And>nodes prv cur pth r. w nodes prv cur pth = Some r \<Longrightarrow> length pth \<le> length r"
    and body: "(case cur of
                  None \<Rightarrow> Some pth
                | Some c \<Rightarrow> if c = [] then Some pth
                            else w nodes prv (prv c) (lookup nodes c # pth)) = Some r"
  show "length pth \<le> length r"
  proof (cases cur)
    case None
    with body show ?thesis by simp
  next
    case (Some c)
    show ?thesis
    proof (cases "c = []")
      case True
      with Some body show ?thesis by simp
    next
      case False
      with Some body have "w nodes prv (prv c) (lookup nodes c # pth) = Some r" by simp
      from IH [OF this] show ?thesis by simp
    qed
  qed
qed

lemma to_waypoints_length: "to_waypoints pth = Inr ws \<Longrightarrow> length ws = length pth"
proof (induction pth arbitrary: ws rule: to_waypoints.induct)
  case 1
  then show ?case by simp
next
  case (2 ns)
  then show ?case by simp
next
  case (3 n ns)
  then show ?case by (auto split: sum.splits)
qed

subsection \<open>Non-negative edge costs\<close>

lemma congestion_lower:
  assumes "\<forall>k c. tm k = Some c \<longrightarrow> l \<le> c" and "l \<le> 0"
  shows "l \<le> congestion tm aId bId"
  using assms by (auto simp: congestion_def split: option.splits)

lemma edgeCost_nonneg:
  assumes "\<forall>k c. tm k = Some c \<longrightarrow> - (1/2) \<le> c"
    and "\<forall>f \<in> set fl. - (1/5) \<le> effective_severity f"
  shows "num_le (Fin 0) (edgeCost nodes tm fl aId bId)"
proof (cases "lookup nodes aId")
  case None
  then show ?thesis by (simp add: edgeCost_dead)
next
  case A: (Some a)
  show ?thesis
  proof (cases "lookup nodes bId")
    case None
    then show ?thesis by (simp add: edgeCost_dead)
  next
    case B: (Some b)
    have "- (1/2) \<le> congestion tm aId bId"
      using assms(1) by (rule congestion_lower) simp
    then have c: "0 \<le> 1 + 2 * congestion tm aId bId" by simp
    have p: "0 \<le> (\<Prod>f\<leftarrow>fl. zone_factor (midpoint a b) f)"
      using assms(2) by (intro prod_list_nonneg_real) (simp add: zone_factor_nonneg)
    have "0 \<le> haversine a b * (1 + 2 * congestion tm aId bId)
               * (\<Prod>f\<leftarrow>fl. zone_factor (midpoint a b) f)"
      using haversine_nonneg [of a b] c p by simp
    then show ?thesis by (simp add: edgeCost_live [OF A B])
  qed
qed

lemma num_add_nonneg:
  "num_le (Fin 0) a \<Longrightarrow> num_le (Fin 0) b \<Longrightarrow> num_le (Fin 0) (num_add a b)"
  by (cases a; cases b) simp_all

lemma dist_nonneg_init: "dist_nonneg (init_search nodes startId)"
  by (auto simp: dist_nonneg_def dist_init_search split: if_splits)

lemma dist_nonneg_relax:
  assumes "\<forall>k c. tm k = Some c \<longrightarrow> - (1/2) \<le> c"
    and "\<forall>f \<in> set fl. - (1/5) \<le> effective_severity f"
    and "dist_nonneg s"
  shows "dist_nonneg (relax nodes tm fl u vs s)"
  using assms(3)
proof (rule relax_invariant [where P = dist_nonneg])
  fix s :: search and v du
  assume s: "dist_nonneg s" and du: "dist s u = Some du"
  have "num_le (Fin 0) du" using s du by (auto simp: dist_nonneg_def)
  then have "num_le (Fin 0) (num_add du (edgeCost nodes tm fl u v))"
    using edgeCost_nonneg [OF assms(1,2)] by (rule num_add_nonneg)
  then show "dist_nonneg (s\<lparr>dist := (dist s)(v \<mapsto> num_add du (edgeCost nodes tm fl u v)),
                        prev := (prev s)(v \<mapsto> u)\<rparr>)"
    using s by (auto simp: dist_nonneg_def)
qed

lemma dist_nonneg_visited [simp]: "dist_nonneg (s\<lparr>visited := vs\<rparr>) = dist_nonneg s"
  by (simp add: dist_nonneg_def)

lemma dist_nonneg_visit:
  assumes "\<forall>k c. tm k = Some c \<longrightarrow> - (1/2) \<le> c"
    and "\<forall>f \<in> set fl. - (1/5) \<le> effective_severity f"
    and "dist_nonneg s"
  shows "dist_nonneg (visit nodes tm fl u s)"
  unfolding visit_def using assms by (intro dist_nonneg_relax) simp_all

subsection \<open>The predecessor links lead back in visiting order\<close>

lemma pos_le_length: "pos xs x \<le> length xs"
  by (induction xs) simp_all

lemma pos_less_length_iff: "pos xs x < length xs \<longleftrightarrow> x \<in> set xs"
  by (induction xs) auto

lemma pos_append_in: "x \<in> set xs \<Longrightarrow> pos (xs @ ys) x = pos xs x"
  by (induction xs) auto

lemma pos_append_notin: "x \<notin> set xs \<Longrightarrow> pos (xs @ ys) x = length xs + pos ys x"
  by (induction xs) auto

lemma pos_append_mono: "pos xs x \<le> pos (xs @ ys) x"
  using pos_le_length [of xs x]
  by (cases "x \<in> set xs") (simp_all add: pos_append_in pos_append_notin)

lemma prev_ok_init: "prev_ok nodes (init_search nodes startId)"
  by (simp add: prev_ok_def init_search_def)

lemma prev_ok_visit:
  assumes ok: "prev_ok nodes s" and u: "extractMin (map node_id nodes) s = Some u"
  shows "prev_ok nodes (visit nodes tm fl u s)"
proof -
  have uk: "u \<in> set (map node_id nodes)" and unv: "u \<notin> set (visited s)"
    using extractMin_Some [OF u] by simp_all
  let ?P = "\<lambda>s'. prev_ok nodes s' \<and> u \<in> set (visited s')"
  have "?P (visit nodes tm fl u s)"
  proof (rule visit_invariant [where P = ?P])
    have "pos (visited s @ [u]) a < pos (visited s @ [u]) v" if "prev s v = Some a" for v a
    proof -
      have lt: "pos (visited s) a < pos (visited s) v"
        using ok that by (simp add: prev_ok_def)
      then have "pos (visited s) a < length (visited s)"
        using pos_le_length [of "visited s" v] by simp
      then have "a \<in> set (visited s)" by (simp add: pos_less_length_iff)
      then have "pos (visited s @ [u]) a = pos (visited s) a" by (rule pos_append_in)
      with lt pos_append_mono [of "visited s" v "[u]"] show ?thesis by simp
    qed
    then show "?P (s\<lparr>visited := visited s @ [u]\<rparr>)"
      using ok uk by (simp add: prev_ok_def)
  next
    fix s' :: search and v du
    assume P: "?P s'" and v: "v \<notin> set (visited s')"
    have "pos (visited s') u < length (visited s')"
      using P by (simp add: pos_less_length_iff)
    moreover have "pos (visited s') v = length (visited s')"
      using v pos_less_length_iff [of "visited s'" v] pos_le_length [of "visited s'" v] by simp
    ultimately have "pos (visited s') u < pos (visited s') v"
      by simp
    then show "?P (s'\<lparr>dist := (dist s')(v \<mapsto> num_add du (edgeCost nodes tm fl u v)),
                     prev := (prev s')(v \<mapsto> u)\<rparr>)"
      using P by (simp add: prev_ok_def)
  qed
  then show ?thesis by simp
qed

lemma prev_ok_dijkstra:
  "prev_ok nodes (dijkstra nodes tm fl endId (init_search nodes startId))"
  by (rule dijkstra_invariant [where P = "prev_ok nodes"])
     (simp_all add: prev_ok_init prev_ok_visit)

lemma lookup_None_iff: "lookup nodes k = None \<longleftrightarrow> k \<notin> set (map node_id nodes)"
  by (auto simp: lookup_def find_None_iff)

text \<open>Along such links the reconstruction ends, and finds a node under every key it meets.\<close>

lemma walk_returns:
  assumes prv: "\<forall>v u. prv v = Some u \<longrightarrow> pos vs u < pos vs v"
    and vs: "set vs \<subseteq> set (map node_id nodes)"
    and c: "c \<in> set (map node_id nodes)"
    and pth: "None \<notin> set pth"
  shows "\<exists>r. walk nodes prv (Some c) pth = Some r \<and> None \<notin> set r"
  using c pth
proof (induction "pos vs c" arbitrary: c pth rule: less_induct)
  case less
  show ?case
  proof (cases "c = []")
    case True
    with less.prems show ?thesis by (subst walk.simps) simp
  next
    case False
    have l: "lookup nodes c \<noteq> None"
      using less.prems(1) by (simp add: lookup_None_iff)
    show ?thesis
    proof (cases "prv c")
      case None
      with False l less.prems show ?thesis
        by (subst walk.simps, subst walk.simps) auto
    next
      case (Some u)
      then have lt: "pos vs u < pos vs c" using prv by simp
      then have "pos vs u < length vs" using pos_le_length [of vs c] by simp
      then have "u \<in> set (map node_id nodes)"
        using vs by (auto simp: pos_less_length_iff)
      moreover have "None \<notin> set (lookup nodes c # pth)"
        using l less.prems(2) by auto
      ultimately have "\<exists>r. walk nodes prv (Some u) (lookup nodes c # pth) = Some r \<and> None \<notin> set r"
        using lt by (intro less.hyps)
      with False Some show ?thesis
        by (subst walk.simps) simp
    qed
  qed
qed

lemma to_waypoints_returns: "None \<notin> set pth \<Longrightarrow> \<exists>ws. to_waypoints pth = Inr ws"
proof (induction pth rule: to_waypoints.induct)
  case 1
  show ?case by simp
next
  case (2 ns)
  then show ?case by simp
next
  case (3 n ns)
  then show ?case by auto
qed

text \<open>\<^verbatim>\<open>computeSafeRoute\<close> returns an object on every input.\<close>

lemma computeSafeRoute_returns:
  "\<exists>r. computeSafeRoute nodes trafficList floodsList srcPoint dstPoint = Some (Inr r)"
proof (cases "closestNode nodes srcPoint")
  case None
  then show ?thesis by (simp add: computeSafeRoute_def)
next
  case S: (Some startN)
  show ?thesis
  proof (cases "closestNode nodes dstPoint")
    case None
    with S show ?thesis by (simp add: computeSafeRoute_def)
  next
    case E: (Some endN)
    define s where "s = search_result nodes trafficList floodsList (node_id startN) (node_id endN)"
    have ok: "prev_ok nodes s"
      unfolding s_def search_result_def by (rule prev_ok_dijkstra)
    have "node_id endN \<in> set (map node_id nodes)"
      using closestNode_mem [OF E] by simp
    with ok obtain pth where
      w: "walk nodes (prev s) (Some (node_id endN)) [] = Some pth" and n: "None \<notin> set pth"
      using walk_returns [of "prev s" "visited s" nodes "node_id endN" "[]"]
      by (auto simp: prev_ok_def)
    from to_waypoints_returns [OF n] obtain ws where "to_waypoints pth = Inr ws" ..
    with S E w show ?thesis
      by (simp add: computeSafeRoute_def s_def [symmetric])
  qed
qed

subsection \<open>Neighbour references that resolve to no node\<close>

lemma js_less_Infinity [simp]: "\<not> js_less (Some Infinity) x"
  by (cases x) simp_all

lemma num_add_Infinity [simp]: "num_add a Infinity = Infinity"
  by (cases a) simp_all

lemma relax_dangling:
  assumes "v \<notin> set (map node_id nodes)"
  shows "relax nodes tm fl u (v # vs) s = relax nodes tm fl u vs s"
proof -
  have "lookup nodes v = None" using assms by (simp add: lookup_None_iff)
  then have "edgeCost nodes tm fl u v = Infinity" by (simp add: edgeCost_dead)
  then show ?thesis by (simp split: option.splits)
qed

lemma relax_filter:
  "relax nodes tm fl u (filter (\<lambda>v. v \<in> set (map node_id nodes)) vs) s = relax nodes tm fl u vs s"
proof (induction vs arbitrary: s)
  case Nil
  show ?case by simp
next
  case (Cons v vs)
  show ?case
  proof (cases "v \<in> set (map node_id nodes)")
    case True
    then show ?thesis
      using Cons.IH by (simp add: Let_def split: option.splits)
  next
    case False
    then show ?thesis
      using Cons.IH by (simp add: relax_dangling del: relax.simps)
  qed
qed

lemma drop_dead_simps [simp]:
  "node_id (drop_dead ids n) = node_id n"
  "lat (drop_dead ids n) = lat n"
  "lng (drop_dead ids n) = lng n"
  "map ref_id (neighbors (drop_dead ids n)) = filter (\<lambda>v. v \<in> ids) (map ref_id (neighbors n))"
  by (simp_all add: drop_dead_def filter_map comp_def)

lemma haversine_drop_dead [simp]:
  "haversine (drop_dead ids a) (drop_dead ids b) = haversine a b"
  by (simp add: haversine_def hav_arg_def)

lemma midpoint_drop_dead [simp]: "midpoint (drop_dead ids a) (drop_dead ids b) = midpoint a b"
  by (simp add: midpoint_def)

lemma lookup_map_drop_dead:
  "lookup (map (drop_dead ids) ns) k = map_option (drop_dead ids) (lookup ns k)"
  by (induction ns) (simp_all add: lookup_def)

lemma edgeCost_map_drop_dead:
  "edgeCost (map (drop_dead ids) ns) tm fl a b = edgeCost ns tm fl a b"
  by (simp add: edgeCost_def lookup_map_drop_dead split: option.splits)

lemma closestNode_foldl_drop_dead:
  "foldl (\<lambda>(best, bestDist) n.
            let d = Fin (haversine p \<lparr>lat = lat n, lng = lng n\<rparr>)
            in if num_less d bestDist then (Some n, d) else (best, bestDist))
     (map_option (drop_dead ids) b0, d0) (map (drop_dead ids) ns)
   = map_prod (map_option (drop_dead ids)) id
       (foldl (\<lambda>(best, bestDist) n.
                 let d = Fin (haversine p \<lparr>lat = lat n, lng = lng n\<rparr>)
                 in if num_less d bestDist then (Some n, d) else (best, bestDist))
          (b0, d0) ns)"
proof (induction ns arbitrary: b0 d0)
  case Nil
  show ?case by simp
next
  case (Cons n ns)
  show ?case
    using Cons.IH [of "Some n"] Cons.IH [of b0] by (simp add: Let_def)
qed

lemma closestNode_map_drop_dead:
  "closestNode (map (drop_dead ids) ns) p = map_option (drop_dead ids) (closestNode ns p)"
  unfolding closestNode_def
  using closestNode_foldl_drop_dead [of p ids None Infinity ns] by simp

lemma adj_foldl_drop_dead:
  assumes "m' u = map_option (filter (\<lambda>v. v \<in> ids)) (m u)"
  shows "foldl (\<lambda>m n. m(node_id n \<mapsto> map ref_id (neighbors n))) m' (map (drop_dead ids) ns) u
         = map_option (filter (\<lambda>v. v \<in> ids))
             (foldl (\<lambda>m n. m(node_id n \<mapsto> map ref_id (neighbors n))) m ns u)"
  using assms
proof (induction ns arbitrary: m m')
  case Nil
  then show ?case by simp
next
  case (Cons n ns)
  show ?case
    unfolding list.map foldl_Cons
    by (rule Cons.IH) (use Cons.prems in simp)
qed

lemma neighbours_of_map_drop_dead:
  "neighbours_of (map (drop_dead ids) ns) u = filter (\<lambda>v. v \<in> ids) (neighbours_of ns u)"
  unfolding neighbours_of_def adj_def
  using adj_foldl_drop_dead [of Map.empty u ids Map.empty ns]
  by (simp split: option.splits)

lemma relax_map_drop_dead:
  "relax (map (drop_dead ids) ns) tm fl u vs s = relax ns tm fl u vs s"
  by (induction vs arbitrary: s)
     (simp_all add: edgeCost_map_drop_dead Let_def split: option.splits)

lemma map_node_id_prune [simp]: "map node_id (prune nodes) = map node_id nodes"
  by (simp add: prune_def comp_def)

lemma visit_prune: "visit (prune nodes) tm fl u s = visit nodes tm fl u s"
  unfolding visit_def prune_def
  by (simp only: relax_map_drop_dead neighbours_of_map_drop_dead relax_filter)

lemma init_search_prune: "init_search (prune nodes) startId = init_search nodes startId"
  by (simp add: init_search_def prune_def foldl_map)

lemma dijkstra_prune:
  "dijkstra (prune nodes) tm fl endId s = dijkstra nodes tm fl endId s"
proof (induction nodes tm fl endId s rule: dijkstra.induct)
  case (1 nodes tm fl endId s)
  show ?case
  proof (cases "extractMin (map node_id nodes) s")
    case None
    then show ?thesis by (simp add: dijkstra_stop)
  next
    case (Some u)
    show ?thesis
    proof (cases "u = endId")
      case True
      with Some show ?thesis by (simp add: dijkstra_stop)
    next
      case False
      have "dijkstra (prune nodes) tm fl endId s
              = dijkstra (prune nodes) tm fl endId (visit (prune nodes) tm fl u s)"
        using Some False by (intro dijkstra_step) simp_all
      also have "\<dots> = dijkstra nodes tm fl endId (visit nodes tm fl u s)"
        using "1.IH" [OF Some False] by (simp add: visit_prune)
      also have "\<dots> = dijkstra nodes tm fl endId s"
        using Some False by (simp add: dijkstra_step)
      finally show ?thesis .
    qed
  qed
qed

lemma walk_map_drop_dead:
  assumes "walk ns prv cur pth = Some r"
  shows "walk (map (drop_dead ids) ns) prv cur (map (map_option (drop_dead ids)) pth)
           = Some (map (map_option (drop_dead ids)) r)"
proof (rule walk.raw_induct
    [where P = "\<lambda>ns prv cur pth r.
        walk (map (drop_dead ids) ns) prv cur (map (map_option (drop_dead ids)) pth)
          = Some (map (map_option (drop_dead ids)) r)", OF _ assms])
  fix w :: "node list \<Rightarrow> (string \<rightharpoonup> string) \<Rightarrow> string option \<Rightarrow> node option list
              \<Rightarrow> node option list option"
    and ns prv cur pth r
  assume IH: "\<And>ns prv cur pth r. w ns prv cur pth = Some r \<Longrightarrow>
        walk (map (drop_dead ids) ns) prv cur (map (map_option (drop_dead ids)) pth)
          = Some (map (map_option (drop_dead ids)) r)"
    and body: "(case cur of
                  None \<Rightarrow> Some pth
                | Some c \<Rightarrow> if c = [] then Some pth
                            else w ns prv (prv c) (lookup ns c # pth)) = Some r"
  show "walk (map (drop_dead ids) ns) prv cur (map (map_option (drop_dead ids)) pth)
          = Some (map (map_option (drop_dead ids)) r)"
  proof (cases cur)
    case None
    with body show ?thesis by (subst walk.simps) auto
  next
    case (Some c)
    show ?thesis
    proof (cases "c = []")
      case True
      with Some body show ?thesis by (subst walk.simps) auto
    next
      case False
      with Some body have "w ns prv (prv c) (lookup ns c # pth) = Some r" by simp
      from IH [OF this] Some False show ?thesis
        by (subst walk.simps) (simp add: lookup_map_drop_dead)
    qed
  qed
qed

lemma to_waypoints_map_drop_dead:
  "to_waypoints (map (map_option (drop_dead ids)) pth) = to_waypoints pth"
  by (induction pth rule: to_waypoints.induct) (simp_all cong: sum.case_cong)

text \<open>Deleting every reference to a missing node does not change the result.\<close>

lemma computeSafeRoute_prune:
  "computeSafeRoute (prune nodes) trafficList floodsList srcPoint dstPoint
     = computeSafeRoute nodes trafficList floodsList srcPoint dstPoint"
proof -
  let ?g = "drop_dead (set (map node_id nodes))"
  have cn: "closestNode (prune nodes) p = map_option ?g (closestNode nodes p)" for p
    by (simp add: prune_def closestNode_map_drop_dead)
  have sr: "search_result (prune nodes) trafficList floodsList a b
              = search_result nodes trafficList floodsList a b" for a b
    by (simp add: search_result_def dijkstra_prune init_search_prune)
  show ?thesis
  proof (cases "closestNode nodes srcPoint")
    case None
    then show ?thesis by (simp add: computeSafeRoute_def cn)
  next
    case S: (Some startN)
    show ?thesis
    proof (cases "closestNode nodes dstPoint")
      case None
      with S show ?thesis by (simp add: computeSafeRoute_def cn)
    next
      case E: (Some endN)
      define s where "s = search_result nodes trafficList floodsList (node_id startN) (node_id endN)"
      obtain r where r: "computeSafeRoute nodes trafficList floodsList srcPoint dstPoint = Some (Inr r)"
        using computeSafeRoute_returns by blast
      show ?thesis
      proof (cases "dist s (node_id endN) = Some Infinity")
        case True
        with S E show ?thesis
          by (simp add: computeSafeRoute_def cn sr s_def [symmetric])
      next
        case False
        with r S E obtain pth where w: "walk nodes (prev s) (Some (node_id endN)) [] = Some pth"
          by (auto simp: computeSafeRoute_def s_def [symmetric] split: option.splits)
        have "walk (prune nodes) (prev s) (Some (node_id endN)) [] = Some (map (map_option ?g) pth)"
          using walk_map_drop_dead [OF w, of "set (map node_id nodes)"] by (simp add: prune_def)
        with w False S E show ?thesis
          by (simp add: computeSafeRoute_def cn sr s_def [symmetric] to_waypoints_map_drop_dead
              cong: sum.case_cong)
      qed
    qed
  qed
qed

lemma prune_delete_dangling:
  assumes "ref_id r \<notin> set (map node_id (ns1 @ n # ns2))" and "neighbors n = rs1 @ r # rs2"
  shows "prune (ns1 @ n\<lparr>neighbors := rs1 @ rs2\<rparr> # ns2) = prune (ns1 @ n # ns2)"
proof -
  have "drop_dead (set (map node_id (ns1 @ n # ns2))) (n\<lparr>neighbors := rs1 @ rs2\<rparr>)
          = drop_dead (set (map node_id (ns1 @ n # ns2))) n"
    using assms by (simp add: drop_dead_def)
  then show ?thesis
    by (simp add: prune_def)
qed

lemma dist_dangling_visit:
  fixes s :: search
  assumes "dist s v = None"
  shows "dist (visit nodes tm fl u s) v = None"
proof (rule visit_invariant [where P = "\<lambda>s. dist s v = None"])
  show "dist (s\<lparr>visited := visited s @ [u]\<rparr>) v = None"
    using assms by simp
next
  fix s :: search and v' du
  assume "dist s v = None"
    and "js_less (Some (num_add du (edgeCost nodes tm fl u v'))) (dist s v')"
  then have "v' \<noteq> v" by auto
  with \<open>dist s v = None\<close>
  show "dist (s\<lparr>dist := (dist s)(v' \<mapsto> num_add du (edgeCost nodes tm fl u v')),
                prev := (prev s)(v' \<mapsto> u)\<rparr>) v = None"
    by simp
qed

lemma dist_dangling_trace:
  assumes "v \<notin> set (map node_id nodes)" and "startId \<in> set (map node_id nodes)"
  shows "\<forall>s \<in> set (search_trace nodes tm fl endId (init_search nodes startId)). dist s v = None"
proof (rule search_trace_invariant [where P = "\<lambda>s. dist s v = None"])
  show "dist (init_search nodes startId) v = None"
    using assms by (auto simp: dist_init_search)
next
  fix s :: search and u
  assume "dist s v = None"
  then show "dist (visit nodes tm fl u s) v = None"
    by (rule dist_dangling_visit)
qed

text \<open>
  A neighbour reference \<open>r\<close> in the list of a node \<open>n\<close> that is the id of no node: relaxing
  it changes nothing, no state of the search holds a distance for the referenced id,
  \<^verbatim>\<open>computeSafeRoute\<close> returns an object, and the result is the one computed on the graph
  with that reference deleted.
\<close>

lemma dangling_reference_ignored:
  assumes "nodes = ns1 @ n # ns2"
    and "neighbors n = rs1 @ r # rs2"
    and "ref_id r \<notin> set (map node_id nodes)"
  shows "relax nodes tm fl (node_id n) [ref_id r] s = s
    \<and> (startId \<in> set (map node_id nodes) \<longrightarrow>
         (\<forall>s' \<in> set (search_trace nodes tm fl endId (init_search nodes startId)).
            dist s' (ref_id r) = None))
    \<and> (\<exists>res. computeSafeRoute nodes trafficList floodsList srcPoint dstPoint = Some (Inr res))
    \<and> computeSafeRoute (ns1 @ n\<lparr>neighbors := rs1 @ rs2\<rparr> # ns2)
          trafficList floodsList srcPoint dstPoint
        = computeSafeRoute nodes trafficList floodsList srcPoint dstPoint"
proof (intro conjI impI)
  show "relax nodes tm fl (node_id n) [ref_id r] s = s"
    using relax_dangling [OF assms(3), of tm fl "node_id n" "[]" s] by simp
  show "\<exists>res. computeSafeRoute nodes trafficList floodsList srcPoint dstPoint = Some (Inr res)"
    by (rule computeSafeRoute_returns)
  show "\<forall>s' \<in> set (search_trace nodes tm fl endId (init_search nodes startId)).
            dist s' (ref_id r) = None"
    if "startId \<in> set (map node_id nodes)"
    using assms(3) that by (rule dist_dangling_trace)
  have "prune (ns1 @ n\<lparr>neighbors := rs1 @ rs2\<rparr> # ns2) = prune nodes"
    using assms by (simp add: prune_delete_dangling)
  then have "computeSafeRoute (ns1 @ n\<lparr>neighbors := rs1 @ rs2\<rparr> # ns2)
               trafficList floodsList srcPoint dstPoint
             = computeSafeRoute (prune nodes) trafficList floodsList srcPoint dstPoint"
    using computeSafeRoute_prune [of "ns1 @ n\<lparr>neighbors := rs1 @ rs2\<rparr> # ns2"] by simp
  then show "computeSafeRoute (ns1 @ n\<lparr>neighbors := rs1 @ rs2\<rparr> # ns2)
          trafficList floodsList srcPoint dstPoint
        = computeSafeRoute nodes trafficList floodsList srcPoint dstPoint"
    by (simp add: computeSafeRoute_prune)
qed

subsection \<open>The distance field and the path\<close>

text \<open>
  When the id of the snapped destination is not the empty string, a returned object has
  the field \<^verbatim>\<open>distance_m\<close> exactly when its path is non-empty.
\<close>

lemma distance_m_iff_path:
  assumes "\<forall>endN. closestNode nodes dstPoint = Some endN \<longrightarrow> node_id endN \<noteq> []"
    and "computeSafeRoute nodes trafficList floodsList srcPoint dstPoint = Some (Inr r)"
  shows "(distance_m r \<noteq> None) = (path r \<noteq> [])"
proof (cases "closestNode nodes srcPoint")
  case None
  with assms(2) show ?thesis by (auto simp: computeSafeRoute_def)
next
  case S: (Some startN)
  show ?thesis
  proof (cases "closestNode nodes dstPoint")
    case None
    with S assms(2) show ?thesis by (auto simp: computeSafeRoute_def)
  next
    case E: (Some endN)
    define s where "s = search_result nodes trafficList floodsList (node_id startN) (node_id endN)"
    have endN: "endN \<in> set nodes" using E by (rule closestNode_mem)
    have ne: "node_id endN \<noteq> []" using assms(1) E by blast
    have "dist s (node_id endN) \<noteq> None"
      unfolding s_def search_result_def using endN by (intro dist_search_defined) simp
    then obtain d where d: "dist s (node_id endN) = Some d" by blast
    show ?thesis
    proof (cases d)
      case Infinity
      with S E d assms(2) show ?thesis
        by (auto simp: computeSafeRoute_def s_def [symmetric])
    next
      case (Fin x)
      with S E d assms(2) obtain pth ws
        where w: "walk nodes (prev s) (Some (node_id endN)) [] = Some pth"
          and tw: "to_waypoints pth = Inr ws"
          and r: "r = \<lparr>path = ws, start = Some (node_id startN), end' = Some (node_id endN),
                      distance_m = Some x\<rparr>"
        by (auto simp: computeSafeRoute_def s_def [symmetric] split: option.splits sum.splits)
      have "walk nodes (prev s) (prev s (node_id endN)) [lookup nodes (node_id endN)] = Some pth"
        using w ne by (subst (asm) walk.simps) simp
      then have "1 \<le> length pth" using walk_length by fastforce
      then have "ws \<noteq> []" using to_waypoints_length [OF tw] by auto
      then show ?thesis by (simp add: r)
    qed
  qed
qed

subsection \<open>Distances between points of the equator\<close>

lemma sin_quarter_sq: "(sin (pi / 4))\<^sup>2 = 1 / 2"
  by (simp add: sin_45 power2_eq_square)

lemma haversine_same: "lat a = lat b \<Longrightarrow> lng a = lng b \<Longrightarrow> haversine a b = 0"
  by (simp add: haversine_def hav_arg_def toRad_def atan2_def)

lemma haversine_equator_90:
  assumes "lat a = 0" and "lat b = 0" and "\<bar>lng b - lng a\<bar> = 90"
  shows "haversine a b = 6371000 * pi / 2"
proof -
  have "lng b - lng a = 90 \<or> lng b - lng a = - 90" using assms(3) by linarith
  then have h: "hav_arg a b = 1 / 2"
    using assms(1,2) by (auto simp: hav_arg_def toRad_def sin_quarter_sq)
  show ?thesis
    unfolding haversine_def Let_def h by (simp add: atan2_def arctan_one)
qed

lemma haversine_equator_180:
  assumes "lat a = 0" and "lat b = 0" and "\<bar>lng b - lng a\<bar> = 180"
  shows "haversine a b = 6371000 * pi"
proof -
  have "lng b - lng a = 180 \<or> lng b - lng a = - 180" using assms(3) by linarith
  then have h: "hav_arg a b = 1"
    using assms(1,2) by (auto simp: hav_arg_def toRad_def)
  show ?thesis
    unfolding haversine_def Let_def h by (simp add: atan2_def)
qed

section \<open>Claims\<close>

subsection \<open>C1: the line graph A-B-C\<close>

text \<open>
  C1, at an input where the program departs from the claim. The claim is that on every
  line graph A-B-C without traffic and flood data, a call with a source point closest to
  A and a destination point closest to C returns the path \<open>[A, B, C]\<close>. The
  reconstruction loop \<^verbatim>\<open>while (cur)\<close> stops at a node whose id is the empty string,
  which is falsy, although the rest of the function (\<^verbatim>\<open>extractMin\<close>, the test
  \<^verbatim>\<open>u === null\<close>, the objects \<^verbatim>\<open>dist\<close>, \<^verbatim>\<open>prev\<close> and \<^verbatim>\<open>adj\<close>) treats that id as a
  key like any other. On the line A-B-C along the equator, with A at longitude 0, B at
  90 and C at 180, and \<open>''''\<close> as the id of A, the source point snaps to A and the
  destination to C, the search reaches C through B, and the path returned is \<open>[B, C]\<close>:
  it lacks A.
\<close>

theorem C1_empty_id_failing_input:
  "closestNode
     [\<lparr>lat = 0, lng = 0, node_id = '''', neighbors = [Plain ''B'']\<rparr>,
      \<lparr>lat = 0, lng = 90, node_id = ''B'', neighbors = [Plain '''', Plain ''C'']\<rparr>,
      \<lparr>lat = 0, lng = 180, node_id = ''C'', neighbors = [Plain ''B'']\<rparr>]
     \<lparr>lat = 0, lng = 0\<rparr>
   = Some \<lparr>lat = 0, lng = 0, node_id = '''', neighbors = [Plain ''B'']\<rparr>
   \<and> closestNode
     [\<lparr>lat = 0, lng = 0, node_id = '''', neighbors = [Plain ''B'']\<rparr>,
      \<lparr>lat = 0, lng = 90, node_id = ''B'', neighbors = [Plain '''', Plain ''C'']\<rparr>,
      \<lparr>lat = 0, lng = 180, node_id = ''C'', neighbors = [Plain ''B'']\<rparr>]
     \<lparr>lat = 0, lng = 180\<rparr>
   = Some \<lparr>lat = 0, lng = 180, node_id = ''C'', neighbors = [Plain ''B'']\<rparr>
   \<and> computeSafeRoute
     [\<lparr>lat = 0, lng = 0, node_id = '''', neighbors = [Plain ''B'']\<rparr>,
      \<lparr>lat = 0, lng = 90, node_id = ''B'', neighbors = [Plain '''', Plain ''C'']\<rparr>,
      \<lparr>lat = 0, lng = 180, node_id = ''C'', neighbors = [Plain ''B'']\<rparr>]
     [] [] \<lparr>lat = 0, lng = 0\<rparr> \<lparr>lat = 0, lng = 180\<rparr>
   = Some (Inr \<lparr>path = [\<lparr>lat = 0, lng = 90, node_id = ''B''\<rparr>,
                       \<lparr>lat = 0, lng = 180, node_id = ''C''\<rparr>],
                start = Some '''', end' = Some ''C'',
                distance_m = Some (6371000 * pi)\<rparr>)"
  by (simp add: computeSafeRoute_def closestNode_def search_result_def init_search_def
      dijkstra.simps extractMin_def visit_def neighbours_of_def adj_def edgeCost_def
      lookup_def congestion_def walk.simps
      haversine_same haversine_equator_90 haversine_equator_180)

subsection \<open>C2: monotonicity of the edge cost\<close>

text \<open>
  C2, as stated, fails, on the line A-B with A at \<open>(0,0)\<close>, B at \<open>(0,180)\<close> and a
  triangular zone around the midpoint \<open>(0,90)\<close>; the base distance is \<open>6371000 \<cdot> \<pi>\<close>.
  \<^item> A zone of severity 0 counts as severity 1 (\<^verbatim>\<open>f.severity || 1\<close>): raising the
    severity from 0 to \<open>1/10\<close> lowers the cost from 6 times the base to \<open>3/2\<close> times.
  \<^item> A zone of severity \<open>-1\<close> has the multiplier \<open>-4\<close>: raising the congestion score of
    the edge from 0 to 1 then lowers the cost from \<open>-4\<close> times the base to \<open>-12\<close> times.
  \<^item> A congestion score of \<open>-1\<close> has the multiplier \<open>-1\<close>: raising the severity of the
    zone from 1 to 2 then lowers the cost from \<open>-6\<close> times the base to \<open>-11\<close> times.
\<close>

theorem C2_monotonicity_counterexample:
  "edgeCost
     [\<lparr>lat = 0, lng = 0, node_id = ''A'', neighbors = [Plain ''B'']\<rparr>,
      \<lparr>lat = 0, lng = 180, node_id = ''B'', neighbors = [Plain ''A'']\<rparr>]
     Map.empty
     [\<lparr>polygon = [\<lparr>lat = - 1, lng = 89\<rparr>, \<lparr>lat = 1, lng = 89\<rparr>, \<lparr>lat = 0, lng = 100\<rparr>],
       severity = Some 0\<rparr>]
     ''A'' ''B''
   = Fin (6 * (6371000 * pi))
   \<and> edgeCost
     [\<lparr>lat = 0, lng = 0, node_id = ''A'', neighbors = [Plain ''B'']\<rparr>,
      \<lparr>lat = 0, lng = 180, node_id = ''B'', neighbors = [Plain ''A'']\<rparr>]
     Map.empty
     [\<lparr>polygon = [\<lparr>lat = - 1, lng = 89\<rparr>, \<lparr>lat = 1, lng = 89\<rparr>, \<lparr>lat = 0, lng = 100\<rparr>],
       severity = Some (1/10)\<rparr>]
     ''A'' ''B''
   = Fin (3/2 * (6371000 * pi))
   \<and> \<not> num_le (Fin (6 * (6371000 * pi))) (Fin (3/2 * (6371000 * pi)))
   \<and> edgeCost
     [\<lparr>lat = 0, lng = 0, node_id = ''A'', neighbors = [Plain ''B'']\<rparr>,
      \<lparr>lat = 0, lng = 180, node_id = ''B'', neighbors = [Plain ''A'']\<rparr>]
     Map.empty
     [\<lparr>polygon = [\<lparr>lat = - 1, lng = 89\<rparr>, \<lparr>lat = 1, lng = 89\<rparr>, \<lparr>lat = 0, lng = 100\<rparr>],
       severity = Some (- 1)\<rparr>]
     ''A'' ''B''
   = Fin (- 4 * (6371000 * pi))
   \<and> edgeCost
     [\<lparr>lat = 0, lng = 0, node_id = ''A'', neighbors = [Plain ''B'']\<rparr>,
      \<lparr>lat = 0, lng = 180, node_id = ''B'', neighbors = [Plain ''A'']\<rparr>]
     [''A_B'' \<mapsto> 1]
     [\<lparr>polygon = [\<lparr>lat = - 1, lng = 89\<rparr>, \<lparr>lat = 1, lng = 89\<rparr>, \<lparr>lat = 0, lng = 100\<rparr>],
       severity = Some (- 1)\<rparr>]
     ''A'' ''B''
   = Fin (- 12 * (6371000 * pi))
   \<and> \<not> num_le (Fin (- 4 * (6371000 * pi))) (Fin (- 12 * (6371000 * pi)))
   \<and> edgeCost
     [\<lparr>lat = 0, lng = 0, node_id = ''A'', neighbors = [Plain ''B'']\<rparr>,
      \<lparr>lat = 0, lng = 180, node_id = ''B'', neighbors = [Plain ''A'']\<rparr>]
     [''A_B'' \<mapsto> - 1]
     [\<lparr>polygon = [\<lparr>lat = - 1, lng = 89\<rparr>, \<lparr>lat = 1, lng = 89\<rparr>, \<lparr>lat = 0, lng = 100\<rparr>],
       severity = Some 1\<rparr>]
     ''A'' ''B''
   = Fin (- 6 * (6371000 * pi))
   \<and> edgeCost
     [\<lparr>lat = 0, lng = 0, node_id = ''A'', neighbors = [Plain ''B'']\<rparr>,
      \<lparr>lat = 0, lng = 180, node_id = ''B'', neighbors = [Plain ''A'']\<rparr>]
     [''A_B'' \<mapsto> - 1]
     [\<lparr>polygon = [\<lparr>lat = - 1, lng = 89\<rparr>, \<lparr>lat = 1, lng = 89\<rparr>, \<lparr>lat = 0, lng = 100\<rparr>],
       severity = Some 2\<rparr>]
     ''A'' ''B''
   = Fin (- 11 * (6371000 * pi))
   \<and> \<not> num_le (Fin (- 6 * (6371000 * pi))) (Fin (- 11 * (6371000 * pi)))"
  by (simp add: edgeCost_def lookup_def congestion_def flood_penalty_def midpoint_def
      effective_severity_def pointInPolygon_def intersect_def
      haversine_def hav_arg_def toRad_def atan2_def Let_def)

text \<open>
  C2, amended. With the nodes and the flood zones fixed, and every zone of effective
  severity at least \<open>-1/5\<close> (so that no multiplier is negative), the cost of an edge is
  monotonically non-decreasing in the congestion score looked up for it. With the
  congestion score fixed and at least \<open>-1/2\<close>, and every other zone of effective severity
  at least \<open>-1/5\<close>, the cost is monotonically non-decreasing in the effective severity
  (\<^verbatim>\<open>f.severity || 1\<close>) of a zone; in particular in the stored severity over the positive
  severities.
\<close>

theorem C2_edge_cost_monotone:
  "((\<forall>f \<in> set fl. - (1/5) \<le> effective_severity f)
      \<and> congestion tm aId bId \<le> congestion tm' aId bId
      \<longrightarrow> num_le (edgeCost nodes tm fl aId bId) (edgeCost nodes tm' fl aId bId))
   \<and> ((\<forall>g \<in> set (fs @ fs'). - (1/5) \<le> effective_severity g)
      \<and> - (1/2) \<le> congestion tm aId bId
      \<and> polygon f' = polygon f
      \<and> effective_severity f \<le> effective_severity f'
      \<longrightarrow> num_le (edgeCost nodes tm (fs @ f # fs') aId bId)
                  (edgeCost nodes tm (fs @ f' # fs') aId bId))
   \<and> (0 < s \<and> s \<le> s'
      \<longrightarrow> effective_severity \<lparr>polygon = poly, severity = Some s\<rparr>
            \<le> effective_severity \<lparr>polygon = poly, severity = Some s'\<rparr>)"
proof (intro conjI impI)
  assume a: "(\<forall>f \<in> set fl. - (1/5) \<le> effective_severity f)
      \<and> congestion tm aId bId \<le> congestion tm' aId bId"
  show "num_le (edgeCost nodes tm fl aId bId) (edgeCost nodes tm' fl aId bId)"
  proof (cases "lookup nodes aId")
    case None
    then show ?thesis by (simp add: edgeCost_dead)
  next
    case A: (Some a)
    show ?thesis
    proof (cases "lookup nodes bId")
      case None
      then show ?thesis by (simp add: edgeCost_dead)
    next
      case B: (Some b)
      have p: "0 \<le> (\<Prod>f\<leftarrow>fl. zone_factor (midpoint a b) f)"
        using a by (intro prod_list_nonneg_real) (simp add: zone_factor_nonneg)
      have "haversine a b * (1 + 2 * congestion tm aId bId)
              \<le> haversine a b * (1 + 2 * congestion tm' aId bId)"
        using a haversine_nonneg [of a b] by (intro mult_left_mono) simp_all
      then show ?thesis
        unfolding edgeCost_live [OF A B] using p by (rule num_le_Fin_mult_right)
    qed
  qed
next
  assume a: "(\<forall>g \<in> set (fs @ fs'). - (1/5) \<le> effective_severity g)
      \<and> - (1/2) \<le> congestion tm aId bId
      \<and> polygon f' = polygon f
      \<and> effective_severity f \<le> effective_severity f'"
  show "num_le (edgeCost nodes tm (fs @ f # fs') aId bId)
               (edgeCost nodes tm (fs @ f' # fs') aId bId)"
  proof (cases "lookup nodes aId")
    case None
    then show ?thesis by (simp add: edgeCost_dead)
  next
    case A: (Some a)
    show ?thesis
    proof (cases "lookup nodes bId")
      case None
      then show ?thesis by (simp add: edgeCost_dead)
    next
      case B: (Some b)
      let ?m = "midpoint a b"
      define base where "base = haversine a b * (1 + 2 * congestion tm aId bId)"
      define rest where "rest = (\<Prod>g\<leftarrow>fs. zone_factor ?m g) * (\<Prod>g\<leftarrow>fs'. zone_factor ?m g)"
      have "0 \<le> (\<Prod>g\<leftarrow>fs. zone_factor ?m g)" "0 \<le> (\<Prod>g\<leftarrow>fs'. zone_factor ?m g)"
        using a by (auto intro!: prod_list_nonneg_real zone_factor_nonneg)
      then have rest: "0 \<le> rest" by (simp add: rest_def)
      have base: "0 \<le> base"
        using a haversine_nonneg [of a b] by (simp add: base_def)
      have zf: "zone_factor ?m f \<le> zone_factor ?m f'"
        using a by (simp add: zone_factor_def)
      have "zone_factor ?m f * (base * rest) \<le> zone_factor ?m f' * (base * rest)"
        using zf base rest by (intro mult_right_mono) simp_all
      then show ?thesis
        unfolding edgeCost_live [OF A B]
        by (simp add: base_def rest_def mult_ac)
    qed
  qed
next
  assume "0 < s \<and> s \<le> s'"
  then show "effective_severity \<lparr>polygon = poly, severity = Some s\<rparr>
            \<le> effective_severity \<lparr>polygon = poly, severity = Some s'\<rparr>"
    by (simp add: effective_severity_def)
qed

theorem C2_edge_cost_monotone_witness:
  "num_le
     (edgeCost
        [\<lparr>lat = 0, lng = 0, node_id = ''A'', neighbors = [Plain ''B'']\<rparr>,
         \<lparr>lat = 0, lng = 180, node_id = ''B'', neighbors = [Plain ''A'']\<rparr>]
        Map.empty
        [\<lparr>polygon = [\<lparr>lat = - 1, lng = 89\<rparr>, \<lparr>lat = 1, lng = 89\<rparr>, \<lparr>lat = 0, lng = 100\<rparr>],
          severity = Some 1\<rparr>]
        ''A'' ''B'')
     (edgeCost
        [\<lparr>lat = 0, lng = 0, node_id = ''A'', neighbors = [Plain ''B'']\<rparr>,
         \<lparr>lat = 0, lng = 180, node_id = ''B'', neighbors = [Plain ''A'']\<rparr>]
        [''A_B'' \<mapsto> 1/2]
        [\<lparr>polygon = [\<lparr>lat = - 1, lng = 89\<rparr>, \<lparr>lat = 1, lng = 89\<rparr>, \<lparr>lat = 0, lng = 100\<rparr>],
          severity = Some 1\<rparr>]
        ''A'' ''B'')
   \<and> num_le
     (edgeCost
        [\<lparr>lat = 0, lng = 0, node_id = ''A'', neighbors = [Plain ''B'']\<rparr>,
         \<lparr>lat = 0, lng = 180, node_id = ''B'', neighbors = [Plain ''A'']\<rparr>]
        Map.empty
        ([] @ \<lparr>polygon = [\<lparr>lat = - 1, lng = 89\<rparr>, \<lparr>lat = 1, lng = 89\<rparr>, \<lparr>lat = 0, lng = 100\<rparr>],
                severity = Some 1\<rparr> # [])
        ''A'' ''B'')
     (edgeCost
        [\<lparr>lat = 0, lng = 0, node_id = ''A'', neighbors = [Plain ''B'']\<rparr>,
         \<lparr>lat = 0, lng = 180, node_id = ''B'', neighbors = [Plain ''A'']\<rparr>]
        Map.empty
        ([] @ \<lparr>polygon = [\<lparr>lat = - 1, lng = 89\<rparr>, \<lparr>lat = 1, lng = 89\<rparr>, \<lparr>lat = 0, lng = 100\<rparr>],
                severity = Some 2\<rparr> # [])
        ''A'' ''B'')
   \<and> effective_severity
         \<lparr>polygon = [\<lparr>lat = - 1, lng = 89\<rparr>, \<lparr>lat = 1, lng = 89\<rparr>, \<lparr>lat = 0, lng = 100\<rparr>],
          severity = Some 1\<rparr>
       \<le> effective_severity
         \<lparr>polygon = [\<lparr>lat = - 1, lng = 89\<rparr>, \<lparr>lat = 1, lng = 89\<rparr>, \<lparr>lat = 0, lng = 100\<rparr>],
          severity = Some 2\<rparr>"
  using C2_edge_cost_monotone
    [where fl = "[\<lparr>polygon = [\<lparr>lat = - 1, lng = 89\<rparr>, \<lparr>lat = 1, lng = 89\<rparr>, \<lparr>lat = 0, lng = 100\<rparr>],
                   severity = Some 1\<rparr>]"
       and tm = Map.empty and tm' = "[''A_B'' \<mapsto> 1/2]" and aId = "''A''" and bId = "''B''"
       and nodes = "[\<lparr>lat = 0, lng = 0, node_id = ''A'', neighbors = [Plain ''B'']\<rparr>,
                     \<lparr>lat = 0, lng = 180, node_id = ''B'', neighbors = [Plain ''A'']\<rparr>]"
       and fs = "[]" and fs' = "[]"
       and f = "\<lparr>polygon = [\<lparr>lat = - 1, lng = 89\<rparr>, \<lparr>lat = 1, lng = 89\<rparr>, \<lparr>lat = 0, lng = 100\<rparr>],
                  severity = Some 1\<rparr>"
       and f' = "\<lparr>polygon = [\<lparr>lat = - 1, lng = 89\<rparr>, \<lparr>lat = 1, lng = 89\<rparr>, \<lparr>lat = 0, lng = 100\<rparr>],
                   severity = Some 2\<rparr>"
       and s = 1 and s' = 2
       and poly = "[\<lparr>lat = - 1, lng = 89\<rparr>, \<lparr>lat = 1, lng = 89\<rparr>, \<lparr>lat = 0, lng = 100\<rparr>]"]
  by (simp add: effective_severity_def congestion_def)

subsection \<open>C3: values of the traffic map\<close>

text \<open>
  C3, as stated, fails: a negative congestion score is stored unchanged (the default
  \<^verbatim>\<open>?? 0\<close> applies to \<^verbatim>\<open>null\<close> and \<^verbatim>\<open>undefined\<close> only), so the map holds a value
  that is neither 0 nor in \<open>[0,1]\<close>.
\<close>

theorem C3_negative_score_counterexample:
  "trafficMap_of [\<lparr>edgeId = Some ''A_B'', congestionScore = Some (- 1), score = None\<rparr>]
     Map.empty ''A_B'' = Some (- 1)"
  by (simp add: traffic_value_def)

text \<open>
  C3, amended. A traffic record with a non-empty \<^verbatim>\<open>edgeId\<close> other than
  \<^verbatim>\<open>__proto__\<close> that no later record repeats is stored under that key as
  \<^verbatim>\<open>congestionScore ?? score ?? 0\<close>: 0 when both fields are missing, the stored number
  otherwise (a negative one too). Every value of the traffic map lies in \<open>[0,1]\<close>
  provided every score present in the records does.
\<close>

theorem C3_traffic_map_values:
  "(edgeId t = Some k \<and> k \<noteq> [] \<and> k \<noteq> ''__proto__''
      \<and> (\<forall>t' \<in> set ts'. edgeId t' \<noteq> Some k)
      \<longrightarrow> trafficMap_of (ts @ t # ts') Map.empty k
            = Some (case congestionScore t of
                      Some c \<Rightarrow> c
                    | None \<Rightarrow> (case score t of Some c \<Rightarrow> c | None \<Rightarrow> 0)))
   \<and> ((\<forall>t \<in> set trafficList.
          (\<forall>c. congestionScore t = Some c \<longrightarrow> 0 \<le> c \<and> c \<le> 1)
          \<and> (\<forall>c. score t = Some c \<longrightarrow> 0 \<le> c \<and> c \<le> 1))
        \<longrightarrow> (\<forall>e v. trafficMap_of trafficList Map.empty e = Some v \<longrightarrow> 0 \<le> v \<and> v \<le> 1))"
proof (intro conjI impI allI)
  assume a: "edgeId t = Some k \<and> k \<noteq> [] \<and> k \<noteq> ''__proto__''
      \<and> (\<forall>t' \<in> set ts'. edgeId t' \<noteq> Some k)"
  have "trafficMap_of (ts @ t # ts') Map.empty k
          = trafficMap_of ts' ((trafficMap_of ts Map.empty)(k \<mapsto> traffic_value t)) k"
    using a by (simp add: trafficMap_of_append)
  also have "\<dots> = Some (traffic_value t)"
    using a by (simp add: trafficMap_of_other)
  finally show "trafficMap_of (ts @ t # ts') Map.empty k
            = Some (case congestionScore t of
                      Some c \<Rightarrow> c
                    | None \<Rightarrow> (case score t of Some c \<Rightarrow> c | None \<Rightarrow> 0))"
    by (simp add: traffic_value_def)
next
  fix e v
  assume r: "\<forall>t \<in> set trafficList.
          (\<forall>c. congestionScore t = Some c \<longrightarrow> 0 \<le> c \<and> c \<le> 1)
          \<and> (\<forall>c. score t = Some c \<longrightarrow> 0 \<le> c \<and> c \<le> 1)"
    and v: "trafficMap_of trafficList Map.empty e = Some v"
  have "\<forall>t \<in> set trafficList. 0 \<le> traffic_value t \<and> traffic_value t \<le> 1"
    using r by (auto simp: traffic_value_def split: option.splits)
  then have "0 \<le> v \<and> v \<le> 1"
    using trafficMap_of_range [where P = "\<lambda>v. 0 \<le> v \<and> v \<le> 1" and m = Map.empty, OF _ _ v]
    by simp
  then show "0 \<le> v" "v \<le> 1" by simp_all
qed

theorem C3_traffic_map_values_witness:
  "trafficMap_of ([\<lparr>edgeId = Some ''A_B'', congestionScore = Some (1/2), score = None\<rparr>]
                  @ \<lparr>edgeId = Some ''B_C'', congestionScore = None, score = None\<rparr> # [])
     Map.empty ''B_C'' = Some 0
   \<and> trafficMap_of [\<lparr>edgeId = Some ''A_B'', congestionScore = Some (1/2), score = None\<rparr>,
                    \<lparr>edgeId = Some ''B_C'', congestionScore = None, score = Some 1\<rparr>]
       Map.empty ''A_B'' = Some (1/2)
   \<and> (0::real) \<le> 1/2 \<and> (1/2::real) \<le> 1"
  using C3_traffic_map_values
    [of "\<lparr>edgeId = Some ''B_C'', congestionScore = None, score = None\<rparr>" "''B_C''" "[]"
        "[\<lparr>edgeId = Some ''A_B'', congestionScore = Some (1/2), score = None\<rparr>]"
        "[\<lparr>edgeId = Some ''A_B'', congestionScore = Some (1/2), score = None\<rparr>,
          \<lparr>edgeId = Some ''B_C'', congestionScore = None, score = Some 1\<rparr>]"]
  by (simp add: traffic_value_def)

subsection \<open>C4: effective flood severity\<close>

text \<open>
  C4, as stated, fails: only an absent or zero severity is falsy in
  \<^verbatim>\<open>f.severity || 1\<close>. A zone of severity \<open>-1\<close> that contains the midpoint of the edge
  multiplies the cost by \<open>1 + 5 \<cdot> (-1) = -4\<close>, not by 6.
\<close>

theorem C4_negative_severity_counterexample:
  "edgeCost
     [\<lparr>lat = 0, lng = 0, node_id = ''A'', neighbors = [Plain ''B'']\<rparr>,
      \<lparr>lat = 0, lng = 180, node_id = ''B'', neighbors = [Plain ''A'']\<rparr>]
     Map.empty
     [\<lparr>polygon = [\<lparr>lat = - 1, lng = 89\<rparr>, \<lparr>lat = 1, lng = 89\<rparr>, \<lparr>lat = 0, lng = 100\<rparr>],
       severity = Some (- 1)\<rparr>]
     ''A'' ''B''
   = Fin (- 4 * (6371000 * pi))
   \<and> edgeCost
     [\<lparr>lat = 0, lng = 0, node_id = ''A'', neighbors = [Plain ''B'']\<rparr>,
      \<lparr>lat = 0, lng = 180, node_id = ''B'', neighbors = [Plain ''A'']\<rparr>]
     Map.empty [] ''A'' ''B''
   = Fin (6371000 * pi)"
  by (simp add: edgeCost_def lookup_def congestion_def flood_penalty_def midpoint_def
      effective_severity_def pointInPolygon_def intersect_def
      haversine_def hav_arg_def toRad_def atan2_def Let_def)

text \<open>
  C4, amended. For a flood zone that contains the midpoint of the edge, \<^verbatim>\<open>edgeCost\<close>
  multiplies the cost by \<open>1 + 5 \<cdot> s'\<close>, where the effective severity \<open>s'\<close> is 1 when the
  stored severity is absent or zero, and the stored severity \<open>s\<close> itself when \<open>s\<close> is
  positive or negative.
\<close>

theorem C4_effective_severity:
  assumes "lookup nodes aId = Some a" and "lookup nodes bId = Some b"
    and "pointInPolygon (midpoint a b) (polygon f)"
    and "edgeCost nodes tm (fs @ fs') aId bId = Fin c"
  shows "edgeCost nodes tm (fs @ f # fs') aId bId
           = Fin (c * (1 + 5 * (case severity f of
                                  None \<Rightarrow> 1
                                | Some s \<Rightarrow> if s = 0 then 1 else s)))"
proof -
  have "zone_factor (midpoint a b) f
          = 1 + 5 * (case severity f of None \<Rightarrow> 1 | Some s \<Rightarrow> if s = 0 then 1 else s)"
    using assms(3) by (simp add: zone_factor_def effective_severity_def)
  moreover have "c = haversine a b * (1 + 2 * congestion tm aId bId)
              * (\<Prod>f\<leftarrow>fs @ fs'. zone_factor (midpoint a b) f)"
    using assms(4) by (simp add: edgeCost_live [OF assms(1,2)])
  ultimately show ?thesis
    by (simp add: edgeCost_live [OF assms(1,2)])
qed

theorem C4_effective_severity_witness:
  "edgeCost
     [\<lparr>lat = 0, lng = 0, node_id = ''A'', neighbors = [Plain ''B'']\<rparr>,
      \<lparr>lat = 0, lng = 180, node_id = ''B'', neighbors = [Plain ''A'']\<rparr>]
     Map.empty
     [\<lparr>polygon = [\<lparr>lat = - 1, lng = 89\<rparr>, \<lparr>lat = 1, lng = 89\<rparr>, \<lparr>lat = 0, lng = 100\<rparr>],
       severity = Some 0\<rparr>]
     ''A'' ''B''
   = Fin (6371000 * pi * 6)"
proof -
  let ?A = "\<lparr>lat = 0, lng = 0, node_id = ''A'', neighbors = [Plain ''B'']\<rparr>"
  let ?B = "\<lparr>lat = 0, lng = 180, node_id = ''B'', neighbors = [Plain ''A'']\<rparr>"
  let ?f = "\<lparr>polygon = [\<lparr>lat = - 1, lng = 89\<rparr>, \<lparr>lat = 1, lng = 89\<rparr>, \<lparr>lat = 0, lng = 100\<rparr>],
             severity = Some (0::real)\<rparr>"
  have 1: "lookup [?A, ?B] ''A'' = Some ?A" and 2: "lookup [?A, ?B] ''B'' = Some ?B"
    by (simp_all add: lookup_def)
  have 3: "pointInPolygon (midpoint ?A ?B) (polygon ?f)"
    by (simp add: midpoint_def pointInPolygon_def intersect_def Let_def)
  have 4: "edgeCost [?A, ?B] Map.empty ([] @ []) ''A'' ''B'' = Fin (6371000 * pi)"
    by (simp add: edgeCost_def lookup_def congestion_def flood_penalty_def
        haversine_def hav_arg_def toRad_def atan2_def Let_def)
  show ?thesis
    using C4_effective_severity [OF 1 2 3 4] by simp
qed

subsection \<open>C5: non-negative distances\<close>

text \<open>
  C5, as stated, fails: a negative congestion score is stored unchanged and makes the
  cost of its edge negative. On the line A-B with the score \<open>-1\<close> for the edge, the
  distance assigned to B, and returned as \<^verbatim>\<open>distance_m\<close>, is \<open>- 6371000 \<cdot> \<pi>\<close>.
\<close>

theorem C5_negative_distance_counterexample:
  "computeSafeRoute
     [\<lparr>lat = 0, lng = 0, node_id = ''A'', neighbors = [Plain ''B'']\<rparr>,
      \<lparr>lat = 0, lng = 180, node_id = ''B'', neighbors = [Plain ''A'']\<rparr>]
     [\<lparr>edgeId = Some ''A_B'', congestionScore = Some (- 1), score = None\<rparr>] []
     \<lparr>lat = 0, lng = 0\<rparr> \<lparr>lat = 0, lng = 180\<rparr>
   = Some (Inr \<lparr>path = [\<lparr>lat = 0, lng = 0, node_id = ''A''\<rparr>,
                       \<lparr>lat = 0, lng = 180, node_id = ''B''\<rparr>],
                start = Some ''A'', end' = Some ''B'',
                distance_m = Some (- (6371000 * pi))\<rparr>)
   \<and> - (6371000 * pi) < 0"
  by (simp add: computeSafeRoute_def closestNode_def haversine_def hav_arg_def toRad_def
      atan2_def Let_def search_result_def init_search_def dijkstra.simps extractMin_def
      visit_def neighbours_of_def adj_def edgeCost_def lookup_def congestion_def
      traffic_value_def walk.simps)

text \<open>
  C5, amended. If every congestion score stored in the traffic map (every value the
  map holds once it is built) is at least \<open>-1/2\<close> and every flood zone has an effective severity (\<^verbatim>\<open>f.severity || 1\<close>) of at least
  \<open>-1/5\<close>, as is the case when no score and no severity is negative, then every
  tentative distance held for any node at any point of the search of
  \<^verbatim>\<open>computeSafeRoute\<close> is non-negative: at the start of every iteration of the loop
  and after any number of steps of a relaxation begun there (the relaxation of a list
  \<open>vs\<close> of neighbours of a key \<open>u\<close>; the empty list gives the state itself). So is the
  returned \<^verbatim>\<open>distance_m\<close> when present.
\<close>

theorem C5_distances_nonneg:
  assumes "\<forall>k c. trafficMap_of trafficList Map.empty k = Some c \<longrightarrow> - (1/2) \<le> c"
    and "\<forall>f \<in> set floodsList. - (1/5) \<le> effective_severity f"
  shows "(\<forall>s \<in> set (search_trace nodes (trafficMap_of trafficList Map.empty) floodsList endId
                      (init_search nodes startId)).
            \<forall>u vs k d.
              dist (relax nodes (trafficMap_of trafficList Map.empty) floodsList u vs
                      (s\<lparr>visited := visited s @ [u]\<rparr>)) k = Some d
              \<longrightarrow> num_le (Fin 0) d)
         \<and> (\<forall>r d. computeSafeRoute nodes trafficList floodsList srcPoint dstPoint = Some (Inr r)
                  \<and> distance_m r = Some d \<longrightarrow> 0 \<le> d)"
proof
  let ?tm = "trafficMap_of trafficList Map.empty"
  note tm = assms(1)
  have inv: "\<forall>s \<in> set (search_trace nodes ?tm floodsList e (init_search nodes b)). dist_nonneg s"
    for e b
    by (rule search_trace_invariant [where P = dist_nonneg])
       (simp_all add: dist_nonneg_init dist_nonneg_visit [OF tm assms(2)])
  show "\<forall>s \<in> set (search_trace nodes ?tm floodsList endId (init_search nodes startId)).
            \<forall>u vs k d.
              dist (relax nodes ?tm floodsList u vs (s\<lparr>visited := visited s @ [u]\<rparr>)) k = Some d
              \<longrightarrow> num_le (Fin 0) d"
  proof (intro ballI allI impI)
    fix s u vs k d
    assume s: "s \<in> set (search_trace nodes ?tm floodsList endId (init_search nodes startId))"
      and d: "dist (relax nodes ?tm floodsList u vs (s\<lparr>visited := visited s @ [u]\<rparr>)) k = Some d"
    have "dist_nonneg (s\<lparr>visited := visited s @ [u]\<rparr>)"
      using inv [of endId startId] s by simp
    then have "dist_nonneg (relax nodes ?tm floodsList u vs (s\<lparr>visited := visited s @ [u]\<rparr>))"
      by (rule dist_nonneg_relax [OF tm assms(2)])
    with d show "num_le (Fin 0) d"
      unfolding dist_nonneg_def by blast
  qed
  show "\<forall>r d. computeSafeRoute nodes trafficList floodsList srcPoint dstPoint = Some (Inr r)
                  \<and> distance_m r = Some d \<longrightarrow> 0 \<le> d"
  proof (intro allI impI)
    fix r d
    assume a: "computeSafeRoute nodes trafficList floodsList srcPoint dstPoint = Some (Inr r)
                  \<and> distance_m r = Some d"
    then obtain startN endN :: node where
      d: "dist (search_result nodes trafficList floodsList (node_id startN) (node_id endN))
            (node_id endN) = Some (Fin d)"
      by (auto simp: computeSafeRoute_def Let_def
          split: option.splits sum.splits if_splits num.splits)
    have "last (search_trace nodes ?tm floodsList (node_id endN) (init_search nodes (node_id startN)))
            \<in> set (search_trace nodes ?tm floodsList (node_id endN) (init_search nodes (node_id startN)))"
      by simp
    with inv [of "node_id endN" "node_id startN"]
    have "dist_nonneg (search_result nodes trafficList floodsList (node_id startN) (node_id endN))"
      unfolding search_result_def dijkstra_last_trace by blast
    with d have "num_le (Fin 0) (Fin d)" unfolding dist_nonneg_def by blast
    then show "0 \<le> d" by simp
  qed
qed

theorem C5_distances_nonneg_witness:
  "computeSafeRoute
     [\<lparr>lat = 0, lng = 0, node_id = ''A'', neighbors = [Plain ''B'']\<rparr>,
      \<lparr>lat = 0, lng = 180, node_id = ''B'', neighbors = [Plain ''A'']\<rparr>]
     [\<lparr>edgeId = None, congestionScore = Some (- 5), score = None\<rparr>,
      \<lparr>edgeId = Some ''A_B'', congestionScore = Some (- 1), score = None\<rparr>,
      \<lparr>edgeId = Some ''A_B'', congestionScore = Some (1/2), score = None\<rparr>] []
     \<lparr>lat = 0, lng = 0\<rparr> \<lparr>lat = 0, lng = 180\<rparr>
   = Some (Inr \<lparr>path = [\<lparr>lat = 0, lng = 0, node_id = ''A''\<rparr>,
                       \<lparr>lat = 0, lng = 180, node_id = ''B''\<rparr>],
                start = Some ''A'', end' = Some ''B'',
                distance_m = Some (2 * (6371000 * pi))\<rparr>)
   \<and> 0 \<le> 2 * (6371000 * pi)"
proof -
  let ?N = "[\<lparr>lat = 0, lng = 0, node_id = ''A'', neighbors = [Plain ''B'']\<rparr>,
             \<lparr>lat = 0, lng = 180, node_id = ''B'', neighbors = [Plain ''A'']\<rparr>]"
  let ?T = "[\<lparr>edgeId = None, congestionScore = Some (- 5::real), score = None\<rparr>,
             \<lparr>edgeId = Some ''A_B'', congestionScore = Some (- 1), score = None\<rparr>,
             \<lparr>edgeId = Some ''A_B'', congestionScore = Some (1/2), score = None\<rparr>]"
  let ?r = "\<lparr>path = [\<lparr>lat = 0, lng = 0, node_id = ''A''\<rparr>,
                      \<lparr>lat = 0, lng = 180, node_id = ''B''\<rparr>],
              start = Some ''A'', end' = Some ''B'',
              distance_m = Some (2 * (6371000 * pi))\<rparr>"
  have 1: "\<forall>k c. trafficMap_of ?T Map.empty k = Some c \<longrightarrow> - (1/2) \<le> c"
    by (simp add: traffic_value_def)
  have 2: "\<forall>f \<in> set ([]::flood list). - (1/5) \<le> effective_severity f"
    by simp
  have 3: "computeSafeRoute ?N ?T [] \<lparr>lat = 0, lng = 0\<rparr> \<lparr>lat = 0, lng = 180\<rparr> = Some (Inr ?r)"
    by (simp add: computeSafeRoute_def closestNode_def haversine_def hav_arg_def toRad_def
      atan2_def Let_def search_result_def init_search_def dijkstra.simps extractMin_def
      visit_def neighbours_of_def adj_def edgeCost_def lookup_def congestion_def
      traffic_value_def walk.simps)
  have "0 \<le> 2 * (6371000 * pi)"
    using C5_distances_nonneg [OF 1 2, of ?N "''B''" "''A''" "\<lparr>lat = 0, lng = 0\<rparr>"
        "\<lparr>lat = 0, lng = 180\<rparr>"] 3
    by (metis route.select_convs(4))
  with 3 show ?thesis by simp
qed

subsection \<open>C6: empty graph\<close>

text \<open>
  C6. If the node collection passed to \<^verbatim>\<open>computeSafeRoute\<close> is empty, the call returns
  an object with an empty path and \<^verbatim>\<open>null\<close> start and end (and no \<^verbatim>\<open>distance_m\<close>),
  for every traffic list, flood list and pair of query points.
\<close>

theorem C6_empty_graph:
  "computeSafeRoute [] trafficList floodsList srcPoint dstPoint
     = Some (Inr \<lparr>path = [], start = None, end' = None, distance_m = None\<rparr>)"
  by (simp add: computeSafeRoute_def closestNode_def)

subsection \<open>C7: unreachable destination\<close>

text \<open>
  C7. If the snapped start and end nodes both exist and the distance of the destination
  is still infinite when the search ends, \<^verbatim>\<open>computeSafeRoute\<close> returns an empty path
  with start and end set to the ids of the snapped nodes (and no \<^verbatim>\<open>distance_m\<close>).
\<close>

theorem C7_unreachable:
  assumes "closestNode nodes srcPoint = Some startN"
    and "closestNode nodes dstPoint = Some endN"
    and "dist (search_result nodes trafficList floodsList (node_id startN) (node_id endN))
           (node_id endN) = Some Infinity"
  shows "computeSafeRoute nodes trafficList floodsList srcPoint dstPoint
           = Some (Inr \<lparr>path = [], start = Some (node_id startN),
                        end' = Some (node_id endN), distance_m = None\<rparr>)"
  using assms by (simp add: computeSafeRoute_def)

theorem C7_unreachable_witness:
  "computeSafeRoute
     [\<lparr>lat = 0, lng = 0, node_id = ''A'', neighbors = []\<rparr>,
      \<lparr>lat = 0, lng = 180, node_id = ''B'', neighbors = []\<rparr>] [] []
     \<lparr>lat = 0, lng = 0\<rparr> \<lparr>lat = 0, lng = 180\<rparr>
   = Some (Inr \<lparr>path = [], start = Some ''A'', end' = Some ''B'', distance_m = None\<rparr>)"
proof -
  let ?A = "\<lparr>lat = 0, lng = 0, node_id = ''A'', neighbors = []\<rparr>"
  let ?B = "\<lparr>lat = 0, lng = 180, node_id = ''B'', neighbors = []\<rparr>"
  have 1: "closestNode [?A, ?B] \<lparr>lat = 0, lng = 0\<rparr> = Some ?A"
    by (simp add: closestNode_def haversine_def hav_arg_def toRad_def atan2_def Let_def)
  have 2: "closestNode [?A, ?B] \<lparr>lat = 0, lng = 180\<rparr> = Some ?B"
    by (simp add: closestNode_def haversine_def hav_arg_def toRad_def atan2_def Let_def)
  have 3: "dist (search_result [?A, ?B] [] [] (node_id ?A) (node_id ?B)) (node_id ?B)
             = Some Infinity"
    by (simp add: search_result_def init_search_def dijkstra.simps extractMin_def
        visit_def neighbours_of_def adj_def)
  show ?thesis
    using C7_unreachable [OF 1 2 3] by simp
qed

subsection \<open>C9: termination of the search\<close>

text \<open>
  C9. The search loop of \<^verbatim>\<open>computeSafeRoute\<close> terminates (the function \<open>dijkstra\<close> is
  total) and runs at most \<open>|nodes| + 1\<close> iterations. Every iteration but the last selects
  a key other than the destination that was unvisited, and appends it to the visited
  set. The loop exits in the last state of the trace, where \<^verbatim>\<open>extractMin\<close> finds no
  unvisited key or selects the destination; when the destination is a node of the graph
  it is the destination that is selected, and its distance is then finite or infinite.
\<close>

theorem C9_search_terminates:
  "(let keys = map node_id nodes;
        tr = search_trace nodes tm fl endId (init_search nodes startId)
    in length tr \<le> length nodes + 1
       \<and> (\<forall>i. Suc i < length tr \<longrightarrow>
             (\<exists>u. extractMin keys (tr ! i) = Some u \<and> u \<noteq> endId
                  \<and> u \<notin> set (visited (tr ! i))
                  \<and> visited (tr ! Suc i) = visited (tr ! i) @ [u]))
       \<and> dijkstra nodes tm fl endId (init_search nodes startId) = last tr
       \<and> (extractMin keys (last tr) = None \<or> extractMin keys (last tr) = Some endId)
       \<and> (endId \<in> set keys \<longrightarrow>
             extractMin keys (last tr) = Some endId
             \<and> ((\<exists>d. dist (last tr) endId = Some (Fin d))
                  \<or> dist (last tr) endId = Some Infinity)))"
proof -
  define tr where "tr = search_trace nodes tm fl endId (init_search nodes startId)"
  define s0 where "s0 = init_search nodes startId"
  have v0: "visited s0 = []" by (simp add: s0_def init_search_def)
  have last: "dijkstra nodes tm fl endId s0 = last tr"
    by (simp add: tr_def s0_def dijkstra_last_trace)
  have "length tr \<le> card (set (map node_id nodes) - set (visited s0)) + 1"
    unfolding tr_def s0_def by (rule search_trace_length)
  also have "\<dots> \<le> length nodes + 1"
    using card_length [of "map node_id nodes"] by (simp add: v0)
  finally have 1: "length tr \<le> length nodes + 1" .
  have 2: "\<exists>u. extractMin (map node_id nodes) (tr ! i) = Some u \<and> u \<noteq> endId
                  \<and> u \<notin> set (visited (tr ! i))
                  \<and> visited (tr ! Suc i) = visited (tr ! i) @ [u]"
    if "Suc i < length tr" for i
    using search_trace_step [of i nodes tm fl endId s0] that
    unfolding tr_def s0_def by auto
  have 3: "extractMin (map node_id nodes) (last tr) = None
           \<or> extractMin (map node_id nodes) (last tr) = Some endId"
    using dijkstra_exit [of nodes tm fl endId s0] by (simp add: last)
  have 4: "extractMin (map node_id nodes) (last tr) = Some endId
           \<and> ((\<exists>d. dist (last tr) endId = Some (Fin d)) \<or> dist (last tr) endId = Some Infinity)"
    if e: "endId \<in> set (map node_id nodes)"
  proof
    show "extractMin (map node_id nodes) (last tr) = Some endId"
      using dijkstra_selects_end [OF e, of s0 tm fl] by (simp add: v0 last)
    have "dist (last tr) endId \<noteq> None"
      using dist_search_defined [OF e, of tm fl endId startId] by (simp add: last [symmetric] s0_def)
    then obtain d where "dist (last tr) endId = Some d" by blast
    then show "(\<exists>d. dist (last tr) endId = Some (Fin d)) \<or> dist (last tr) endId = Some Infinity"
      by (cases d) simp_all
  qed
  show ?thesis
    unfolding Let_def tr_def [symmetric]
    using 1 2 3 4 last by (simp add: s0_def)
qed

theorem C9_search_terminates_witness:
  "Suc 0 < length (search_trace
                    [\<lparr>lat = 0, lng = 0, node_id = ''A'', neighbors = [Plain ''B'']\<rparr>,
                     \<lparr>lat = 0, lng = 180, node_id = ''B'', neighbors = [Plain ''A'']\<rparr>]
                    Map.empty [] ''B''
                    (init_search
                       [\<lparr>lat = 0, lng = 0, node_id = ''A'', neighbors = [Plain ''B'']\<rparr>,
                        \<lparr>lat = 0, lng = 180, node_id = ''B'', neighbors = [Plain ''A'']\<rparr>] ''A''))
   \<and> ''B'' \<in> set (map node_id
                    [\<lparr>lat = 0, lng = 0, node_id = ''A'', neighbors = [Plain ''B'']\<rparr>,
                     \<lparr>lat = 0, lng = 180, node_id = ''B'', neighbors = [Plain ''A'']\<rparr>])
   \<and> length (search_trace
                [\<lparr>lat = 0, lng = 0, node_id = ''A'', neighbors = [Plain ''B'']\<rparr>,
                 \<lparr>lat = 0, lng = 180, node_id = ''B'', neighbors = [Plain ''A'']\<rparr>]
                Map.empty [] ''B''
                (init_search
                   [\<lparr>lat = 0, lng = 0, node_id = ''A'', neighbors = [Plain ''B'']\<rparr>,
                    \<lparr>lat = 0, lng = 180, node_id = ''B'', neighbors = [Plain ''A'']\<rparr>] ''A''))
       \<le> 3
   \<and> extractMin [''A'', ''B'']
        (dijkstra
           [\<lparr>lat = 0, lng = 0, node_id = ''A'', neighbors = [Plain ''B'']\<rparr>,
            \<lparr>lat = 0, lng = 180, node_id = ''B'', neighbors = [Plain ''A'']\<rparr>]
           Map.empty [] ''B''
           (init_search
              [\<lparr>lat = 0, lng = 0, node_id = ''A'', neighbors = [Plain ''B'']\<rparr>,
               \<lparr>lat = 0, lng = 180, node_id = ''B'', neighbors = [Plain ''A'']\<rparr>] ''A''))
       = Some ''B''"
proof -
  let ?N = "[\<lparr>lat = 0, lng = 0, node_id = ''A'', neighbors = [Plain ''B'']\<rparr>,
             \<lparr>lat = 0, lng = 180, node_id = ''B'', neighbors = [Plain ''A'']\<rparr>]"
  have tr: "Suc 0 < length (search_trace ?N Map.empty [] ''B'' (init_search ?N ''A''))"
    by (simp add: search_trace.simps init_search_def extractMin_def visit_def)
  have mem: "''B'' \<in> set (map node_id ?N)" by simp
  show ?thesis
    using tr mem C9_search_terminates [of ?N Map.empty "[]" "''B''" "''A''"]
    by (simp add: Let_def)
qed

subsection \<open>C10: presence of distance_m\<close>

text \<open>
  C10, at an input where the program departs from the claim. The claim is that a returned
  object carries \<^verbatim>\<open>distance_m\<close> exactly when its path is non-empty. The reconstruction
  loop \<^verbatim>\<open>while (cur)\<close> does not run at all for a destination whose id is the empty
  string, which is falsy, although the rest of the function treats that id as a key like
  any other. On the graph of one node with id \<open>''''\<close> the search ends with distance 0 for
  the destination, and the object returned has an empty path together with
  \<^verbatim>\<open>distance_m\<close>, of value 0.
\<close>

theorem C10_empty_id_failing_input:
  "computeSafeRoute [\<lparr>lat = 0, lng = 0, node_id = '''', neighbors = []\<rparr>] [] []
      \<lparr>lat = 0, lng = 0\<rparr> \<lparr>lat = 0, lng = 0\<rparr>
   = Some (Inr \<lparr>path = [], start = Some '''', end' = Some '''', distance_m = Some 0\<rparr>)"
  by (simp add: computeSafeRoute_def closestNode_def haversine_def hav_arg_def toRad_def
      atan2_def Let_def search_result_def init_search_def dijkstra.simps extractMin_def
      walk.simps)

end
